theory Spec2Isabelle
  imports Main "HOL-Library.Word"
begin

unbundle bit_operations_syntax

section \<open>The instanced draw-batch aggregator (InstancedBuffer)\<close>

text \<open>
  A shallow embedding of the class \<open>InstancedBuffer\<close> and of the interface
  \<open>IInstancedItem\<close>. JavaScript numbers that hold counts, sizes and handles are natural
  numbers; object identity (index buffers, textures, GPU objects) is a natural number, with
  \<open>None\<close> for an absent reference. A \<open>Uint8Array\<close> is a list of bytes. Exceptions are
  values of the type \<open>error\<close>. Allocation is assumed to succeed.
\<close>

subsection \<open>Data model\<close>

type_synonym byte = "8 word"

type_synonym ShaderHandle = nat

type_synonym DescriptorSetHandle = nat

type_synonym PassHandle = nat

type_synonym GFXTexture = "nat option"

datatype error = RangeError

datatype gfx_object = Buffer nat | InputAssembler nat

record GFXBuffer =
  buf_id :: nat
  buf_usage :: nat
  buf_memUsage :: nat
  buf_size :: nat
  buf_stride :: nat

record GFXAttribute =
  attr_name :: string
  attr_format :: nat
  isNormalized :: bool
  stream :: nat
  isInstanced :: bool

record GFXInputAssembler =
  ia_id :: nat
  attributes :: "GFXAttribute list"
  vertexBuffers :: "nat list"
  indexBuffer :: "nat option"
  instanceCount :: nat

record GFXBufferInfo =
  info_usage :: nat
  info_memUsage :: nat
  info_size :: nat
  info_stride :: nat

record GFXInputAssemblerInfo =
  info_attributes :: "GFXAttribute list"
  info_vertexBuffers :: "nat list"
  info_indexBuffer :: "nat option"

text \<open>
  The graphics device: the number of objects it has created (the next fresh identity) and the
  objects on which \<open>destroy()\<close> has been called, in call order.
\<close>

record GFXDevice =
  created :: nat
  released :: "gfx_object list"

text \<open>A command buffer is the list of buffer updates recorded on it.\<close>

type_synonym GFXCommandBuffer = "(nat \<times> byte list) list"

record IInstancedItem =
  count :: nat
  capacity :: nat
  vb :: GFXBuffer
  data :: "byte list"
  ia :: GFXInputAssembler
  stride :: nat
  hShader :: ShaderHandle
  hDescriptorSet :: DescriptorSetHandle
  lightingMap :: GFXTexture

record InstancedBuffer =
  instances :: "IInstancedItem list"
  hPass :: PassHandle
  hasPendingModels :: bool
  dynamicOffsets :: "nat list"
  device :: GFXDevice

record Pass =
  pass_device :: GFXDevice
  pass_handle :: PassHandle

record IInstancedAttributeBlock =
  buffer :: "byte list"
  block_attributes :: "GFXAttribute list"

record SubModel =
  inputAssembler :: GFXInputAssembler
  descriptorSet :: "nat \<Rightarrow> GFXTexture"
  handle :: nat

text \<open>
  The imported constants and the memory pool that \<open>merge\<close> reads are parameters of the
  model: \<open>pool h v\<close> is \<open>SubModelPool.get(h, v)\<close>.
\<close>

record env =
  pool :: "nat \<Rightarrow> nat \<Rightarrow> nat"
  SHADER_0 :: nat
  DESCRIPTOR_SET :: nat
  UNIFORM_LIGHTMAP_TEXTURE_BINDING :: nat
  USAGE_VERTEX :: nat
  USAGE_TRANSFER_DST :: nat
  MEM_HOST :: nat
  MEM_DEVICE :: nat

definition INITIAL_CAPACITY :: nat where
  "INITIAL_CAPACITY = 32"

definition MAX_CAPACITY :: nat where
  "MAX_CAPACITY = 1024"

subsection \<open>Primitives of the language and of the graphics layer\<close>

text \<open>
  \<open>target.set(source, offset)\<close> of a typed array: a \<open>RangeError\<close> when the source does
  not fit, otherwise the source overwrites the target from \<open>offset\<close> on.
\<close>

definition u8_set :: "byte list \<Rightarrow> byte list \<Rightarrow> nat \<Rightarrow> error + byte list" where
  "u8_set target source offset =
     (if length target < offset + length source then Inl RangeError
      else Inr (take offset target @ source @ drop (offset + length source) target))"

text \<open>\<open>c << 1\<close>: the operand as a 32-bit integer, shifted, read as a signed value.\<close>

definition shl1 :: "nat \<Rightarrow> int" where
  "shl1 c = sint (push_bit 1 (word_of_nat c :: 32 word))"

text \<open>\<open>data[i*stride : (i+1)*stride]\<close> of a group.\<close>

definition slot :: "IInstancedItem \<Rightarrow> nat \<Rightarrow> byte list" where
  "slot g i = take (stride g) (drop (i * stride g) (data g))"

text \<open>
  Modelled from the spec: the graphics device's \<open>createBuffer\<close> (section 6,
  \<open>createBuffer(usage, memoryFlags, sizeBytes, strideBytes) \<rightarrow> Buffer\<close>), which is not among
  the sources. The new buffer gets a fresh identity.
\<close>

definition createBuffer :: "GFXDevice \<Rightarrow> GFXBufferInfo \<Rightarrow> GFXBuffer \<times> GFXDevice" where
  "createBuffer dev info =
     (\<lparr>buf_id = created dev, buf_usage = info_usage info, buf_memUsage = info_memUsage info,
       buf_size = info_size info, buf_stride = info_stride info\<rparr>,
      dev\<lparr>created := created dev + 1\<rparr>)"

text \<open>
  Modelled from the spec: \<open>Buffer.resize(sizeBytes)\<close> (section 3: resized in place on
  growth, same handle, new size), which is not among the sources.
\<close>

definition resize :: "GFXBuffer \<Rightarrow> nat \<Rightarrow> GFXBuffer" where
  "resize b n = b\<lparr>buf_size := n\<rparr>"

text \<open>
  Modelled from the spec: the graphics device's \<open>createInputAssembler\<close> (section 6,
  \<open>createInputAssembler(attributes, vertexBuffers, indexBuffer) \<rightarrow> Binding\<close>), which is
  not among the sources. The binding gets a fresh identity and no instances.
\<close>

definition createInputAssembler ::
    "GFXDevice \<Rightarrow> GFXInputAssemblerInfo \<Rightarrow> GFXInputAssembler \<times> GFXDevice" where
  "createInputAssembler dev info =
     (\<lparr>ia_id = created dev, attributes = info_attributes info,
       vertexBuffers = info_vertexBuffers info, indexBuffer = info_indexBuffer info,
       instanceCount = 0\<rparr>,
      dev\<lparr>created := created dev + 1\<rparr>)"

text \<open>
  Modelled from the spec: \<open>destroy()\<close> of a buffer and of a binding (section 4.5: releases
  the GPU buffer and the input-assembly binding), which are not among the sources.
\<close>

definition destroy_object :: "gfx_object \<Rightarrow> GFXDevice \<Rightarrow> GFXDevice" where
  "destroy_object x dev = dev\<lparr>released := released dev @ [x]\<rparr>"

text \<open>
  Modelled from the spec: the command recorder's \<open>updateBuffer(Buffer, bytes)\<close> (section 6),
  which is not among the sources.
\<close>

definition updateBuffer :: "GFXCommandBuffer \<Rightarrow> GFXBuffer \<Rightarrow> byte list \<Rightarrow> GFXCommandBuffer" where
  "updateBuffer cmdBuff b bytes = cmdBuff @ [(buf_id b, bytes)]"

subsection \<open>The constructor and \<open>destroy\<close>\<close>

definition new_InstancedBuffer :: "Pass \<Rightarrow> InstancedBuffer" where
  "new_InstancedBuffer pass =
     \<lparr>instances = [], hPass = pass_handle pass, hasPendingModels = False,
      dynamicOffsets = [], device = pass_device pass\<rparr>"

function destroy_loop :: "nat \<Rightarrow> InstancedBuffer \<Rightarrow> InstancedBuffer" where
  "destroy_loop i s =
     (if i < length (instances s)
      then destroy_loop (i + 1)
             (s\<lparr>device :=
                  destroy_object (InputAssembler (ia_id (ia (instances s ! i))))
                    (destroy_object (Buffer (buf_id (vb (instances s ! i)))) (device s))\<rparr>)
      else s)"
  by pat_completeness auto

termination
  by (relation "measure (\<lambda>(i, s). length (instances s) - i)") auto

definition destroy :: "InstancedBuffer \<Rightarrow> InstancedBuffer" where
  "destroy s = (destroy_loop 0 s)\<lparr>instances := []\<rparr>"

subsection \<open>\<open>merge\<close>\<close>

text \<open>Lines 79 to 86: the buffers of a full group are doubled.\<close>

definition resize_buffers :: "IInstancedItem \<Rightarrow> error + IInstancedItem" where
  "resize_buffers instance =
     (if capacity instance \<le> count instance
      then (let newCapacity = shl1 (capacity instance);
                newSize = int (stride instance) * newCapacity
            in if newSize < 0 then Inl RangeError
               else (case u8_set (replicate (nat newSize) 0) (data instance) 0 of
                       Inl e \<Rightarrow> Inl e
                     | Inr d \<Rightarrow>
                         Inr (instance\<lparr>capacity := nat newCapacity, data := d,
                                vb := resize (vb instance) (nat newSize)\<rparr>)))
      else Inr instance)"

text \<open>
  Lines 79 to 91: the body of the scan for a group that matches. It is reached with
  \<open>stride instance = length buf\<close>, which is not zero, and \<open>count instance < MAX_CAPACITY\<close>.
\<close>

definition merge_append ::
    "ShaderHandle \<Rightarrow> DescriptorSetHandle \<Rightarrow> byte list \<Rightarrow> nat \<Rightarrow> InstancedBuffer
       \<Rightarrow> error + InstancedBuffer" where
  "merge_append hS hD buf i s =
     (case resize_buffers (instances s ! i) of
        Inl e \<Rightarrow> Inl e
      | Inr inst1 \<Rightarrow>
          (let inst2 = (if hShader inst1 \<noteq> hS then inst1\<lparr>hShader := hS\<rparr> else inst1);
               inst3 = (if hDescriptorSet inst2 \<noteq> hD then inst2\<lparr>hDescriptorSet := hD\<rparr>
                        else inst2)
           in case u8_set (data inst3) buf (stride inst3 * count inst3) of
                Inl e \<Rightarrow> Inl e
              | Inr d \<Rightarrow>
                  Inr (s\<lparr>instances :=
                           (instances s)[i := inst3\<lparr>data := d, count := count inst3 + 1\<rparr>],
                         hasPendingModels := True\<rparr>)))"

text \<open>
  Lines 66 to 92: the scan. \<open>None\<close> means that the loop ran to its end; \<open>Some r\<close> that the
  function returned from inside the loop with outcome \<open>r\<close>.
\<close>

function merge_loop ::
    "byte list \<Rightarrow> nat option \<Rightarrow> GFXTexture \<Rightarrow> ShaderHandle \<Rightarrow> DescriptorSetHandle \<Rightarrow> nat
       \<Rightarrow> InstancedBuffer \<Rightarrow> (error + InstancedBuffer) option" where
  "merge_loop buf ib lm hS hD i s =
     (if i < length (instances s)
      then (if indexBuffer (ia (instances s ! i)) \<noteq> ib
               \<or> MAX_CAPACITY \<le> count (instances s ! i)
            then merge_loop buf ib lm hS hD (i + 1) s
            else if lightingMap (instances s ! i) \<noteq> lm
            then merge_loop buf ib lm hS hD (i + 1) s
            else if stride (instances s ! i) \<noteq> length buf
            then Some (Inr s)
            else Some (merge_append hS hD buf i s))
      else None)"
  by pat_completeness auto

termination
  by (relation "measure (\<lambda>(buf, ib, lm, hS, hD, i, s). length (instances s) - i)") auto

text \<open>Lines 106 to 110: one instance-rate attribute per attribute of the block.\<close>

function push_attributes ::
    "GFXAttribute list \<Rightarrow> nat \<Rightarrow> nat \<Rightarrow> GFXAttribute list \<Rightarrow> GFXAttribute list" where
  "push_attributes as n i acc =
     (if i < length as
      then push_attributes as n (i + 1)
             (acc @ [\<lparr>attr_name = attr_name (as ! i), attr_format = attr_format (as ! i),
                      isNormalized = isNormalized (as ! i), stream = n, isInstanced = True\<rparr>])
      else acc)"
  by pat_completeness auto

termination
  by (relation "measure (\<lambda>(as, n, i, acc). length as - i)") auto

text \<open>Lines 94 to 117: a new group for the submission.\<close>

definition merge_create ::
    "env \<Rightarrow> SubModel \<Rightarrow> IInstancedAttributeBlock \<Rightarrow> ShaderHandle \<Rightarrow> DescriptorSetHandle
       \<Rightarrow> GFXTexture \<Rightarrow> InstancedBuffer \<Rightarrow> error + InstancedBuffer" where
  "merge_create e subModel attrs hS hD lm s =
     (let stride0 = length (buffer attrs);
          sourceIA = inputAssembler subModel;
          (vb0, dev1) = createBuffer (device s)
             \<lparr>info_usage = USAGE_VERTEX e OR USAGE_TRANSFER_DST e,
              info_memUsage = MEM_HOST e OR MEM_DEVICE e,
              info_size = stride0 * INITIAL_CAPACITY,
              info_stride = stride0\<rparr>;
          attributes0 = push_attributes (block_attributes attrs)
                          (length (vertexBuffers sourceIA)) 0 (attributes sourceIA)
      in case u8_set (replicate (stride0 * INITIAL_CAPACITY) 0) (buffer attrs) 0 of
           Inl err \<Rightarrow> Inl err
         | Inr data0 \<Rightarrow>
             (let (ia0, dev2) = createInputAssembler dev1
                    \<lparr>info_attributes = attributes0,
                     info_vertexBuffers = vertexBuffers sourceIA @ [buf_id vb0],
                     info_indexBuffer = indexBuffer sourceIA\<rparr>
              in Inr (s\<lparr>instances := instances s @
                           [\<lparr>count = 1, capacity = INITIAL_CAPACITY, vb = vb0, data = data0,
                             ia = ia0, stride = stride0, hShader = hS, hDescriptorSet = hD,
                             lightingMap = lm\<rparr>],
                         hasPendingModels := True, device := dev2\<rparr>)))"

definition merge ::
    "env \<Rightarrow> SubModel \<Rightarrow> IInstancedAttributeBlock \<Rightarrow> nat \<Rightarrow> ShaderHandle option
       \<Rightarrow> InstancedBuffer \<Rightarrow> error + InstancedBuffer" where
  "merge e subModel attrs passIdx hShaderImplant s =
     (if length (buffer attrs) = 0 then Inr s
      else (let lm = descriptorSet subModel (UNIFORM_LIGHTMAP_TEXTURE_BINDING e);
                hS = pool e (handle subModel) (SHADER_0 e + passIdx);
                hD = pool e (handle subModel) (DESCRIPTOR_SET e)
            in case merge_loop (buffer attrs) (indexBuffer (inputAssembler subModel)) lm hS hD 0 s of
                 Some r \<Rightarrow> r
               | None \<Rightarrow> merge_create e subModel attrs hS hD lm s))"

subsection \<open>\<open>uploadBuffers\<close> and \<open>clear\<close>\<close>

function uploadBuffers_loop ::
    "nat \<Rightarrow> InstancedBuffer \<times> GFXCommandBuffer \<Rightarrow> InstancedBuffer \<times> GFXCommandBuffer" where
  "uploadBuffers_loop i (s, cmdBuff) =
     (if i < length (instances s)
      then (if count (instances s ! i) = 0
            then uploadBuffers_loop (i + 1) (s, cmdBuff)
            else uploadBuffers_loop (i + 1)
                   (s\<lparr>instances := (instances s)
                        [i := (instances s ! i)
                           \<lparr>ia := (ia (instances s ! i))
                              \<lparr>instanceCount := count (instances s ! i)\<rparr>\<rparr>]\<rparr>,
                    updateBuffer cmdBuff (vb (instances s ! i)) (data (instances s ! i))))
      else (s, cmdBuff))"
  by pat_completeness auto

termination
  by (relation "measure (\<lambda>(i, s, c). length (instances s) - i)") auto

definition uploadBuffers ::
    "GFXCommandBuffer \<Rightarrow> InstancedBuffer \<Rightarrow> InstancedBuffer \<times> GFXCommandBuffer" where
  "uploadBuffers cmdBuff s = uploadBuffers_loop 0 (s, cmdBuff)"

function clear_loop :: "nat \<Rightarrow> InstancedBuffer \<Rightarrow> InstancedBuffer" where
  "clear_loop i s =
     (if i < length (instances s)
      then clear_loop (i + 1)
             (s\<lparr>instances := (instances s)[i := (instances s ! i)\<lparr>count := 0\<rparr>]\<rparr>)
      else s)"
  by pat_completeness auto

termination
  by (relation "measure (\<lambda>(i, s). length (instances s) - i)") auto

definition clear :: "InstancedBuffer \<Rightarrow> InstancedBuffer" where
  "clear s = (clear_loop 0 s)\<lparr>hasPendingModels := False\<rparr>"

subsection \<open>A frame of submissions\<close>

record submission =
  sub_model :: SubModel
  sub_attrs :: IInstancedAttributeBlock
  sub_passIdx :: nat
  sub_implant :: "ShaderHandle option"

text \<open>The caller's loop over the submissions of a frame; an exception ends it.\<close>

fun merge_all :: "env \<Rightarrow> submission list \<Rightarrow> InstancedBuffer \<Rightarrow> error + InstancedBuffer" where
  "merge_all e [] s = Inr s"
| "merge_all e (x # xs) s =
     (case merge e (sub_model x) (sub_attrs x) (sub_passIdx x) (sub_implant x) s of
        Inl err \<Rightarrow> Inl err
      | Inr s' \<Rightarrow> merge_all e xs s')"

section \<open>Notions used to state the properties\<close>

text \<open>The capacities \<open>32 * 2 ^ k\<close> up to 1024.\<close>

definition cap_ok :: "nat \<Rightarrow> bool" where
  "cap_ok c \<longleftrightarrow> c \<in> set (map (\<lambda>k. 32 * 2 ^ k) [0..<6])"

definition group_inv :: "IInstancedItem \<Rightarrow> bool" where
  "group_inv g \<longleftrightarrow>
     count g \<le> capacity g \<and> cap_ok (capacity g) \<and> length (data g) = stride g * capacity g"

definition state_inv :: "InstancedBuffer \<Rightarrow> bool" where
  "state_inv s \<longleftrightarrow> list_all group_inv (instances s)"

text \<open>The three tests of the scan that let a group through to the stride check.\<close>

definition matches :: "nat option \<Rightarrow> GFXTexture \<Rightarrow> IInstancedItem \<Rightarrow> bool" where
  "matches ib lm g \<longleftrightarrow>
     indexBuffer (ia g) = ib \<and> count g < MAX_CAPACITY \<and> lightingMap g = lm"

text \<open>The index of the first group of \<open>gs\<close> that matches, counted from \<open>i\<close>.\<close>

fun first_match :: "nat option \<Rightarrow> GFXTexture \<Rightarrow> nat \<Rightarrow> IInstancedItem list \<Rightarrow> nat option" where
  "first_match ib lm i [] = None"
| "first_match ib lm i (g # gs) =
     (if matches ib lm g then Some i else first_match ib lm (i + 1) gs)"

definition sub_ib :: "SubModel \<Rightarrow> nat option" where
  "sub_ib subModel = indexBuffer (inputAssembler subModel)"

definition sub_lm :: "env \<Rightarrow> SubModel \<Rightarrow> GFXTexture" where
  "sub_lm e subModel = descriptorSet subModel (UNIFORM_LIGHTMAP_TEXTURE_BINDING e)"

definition sub_hS :: "env \<Rightarrow> SubModel \<Rightarrow> nat \<Rightarrow> ShaderHandle" where
  "sub_hS e subModel passIdx = pool e (handle subModel) (SHADER_0 e + passIdx)"

definition sub_hD :: "env \<Rightarrow> SubModel \<Rightarrow> DescriptorSetHandle" where
  "sub_hD e subModel = pool e (handle subModel) (DESCRIPTOR_SET e)"

text \<open>
  The group that receives a submission, read off the scan: the index of an existing group,
  the length of the group list for a group that is created, \<open>None\<close> when the submission
  is dropped. Lemma \<open>merge_eq\<close> below shows that \<open>merge\<close> writes to this group and to no
  other.
\<close>

definition landing :: "env \<Rightarrow> SubModel \<Rightarrow> IInstancedAttributeBlock \<Rightarrow> InstancedBuffer \<Rightarrow> nat option" where
  "landing e subModel attrs s =
     (if length (buffer attrs) = 0 then None
      else (case first_match (sub_ib subModel) (sub_lm e subModel) 0 (instances s) of
              None \<Rightarrow> Some (length (instances s))
            | Some k \<Rightarrow>
                if stride (instances s ! k) \<noteq> length (buffer attrs) then None else Some k))"

text \<open>A group after its buffers have been doubled, when it was full.\<close>

definition grown :: "IInstancedItem \<Rightarrow> IInstancedItem" where
  "grown g =
     (if capacity g \<le> count g
      then g\<lparr>capacity := 2 * capacity g,
             data := data g @ replicate (stride g * capacity g) 0,
             vb := (vb g)\<lparr>buf_size := stride g * (2 * capacity g)\<rparr>\<rparr>
      else g)"

text \<open>A group after a payload has been written behind its last instance.\<close>

definition written :: "ShaderHandle \<Rightarrow> DescriptorSetHandle \<Rightarrow> byte list \<Rightarrow> IInstancedItem \<Rightarrow> IInstancedItem" where
  "written hS hD buf g =
     g\<lparr>hShader := hS, hDescriptorSet := hD,
       data := take (stride g * count g) (data g) @ buf
                 @ drop (stride g * count g + length buf) (data g),
       count := count g + 1\<rparr>"

definition appended :: "ShaderHandle \<Rightarrow> DescriptorSetHandle \<Rightarrow> byte list \<Rightarrow> IInstancedItem \<Rightarrow> IInstancedItem" where
  "appended hS hD buf g = written hS hD buf (grown g)"

text \<open>The group that \<open>merge\<close> creates on a device that has created \<open>n\<close> objects.\<close>

definition new_group :: "env \<Rightarrow> SubModel \<Rightarrow> IInstancedAttributeBlock \<Rightarrow> nat \<Rightarrow> nat \<Rightarrow> IInstancedItem" where
  "new_group e subModel attrs passIdx n =
     \<lparr>count = 1, capacity = 32,
      vb = \<lparr>buf_id = n, buf_usage = USAGE_VERTEX e OR USAGE_TRANSFER_DST e,
             buf_memUsage = MEM_HOST e OR MEM_DEVICE e,
             buf_size = length (buffer attrs) * 32, buf_stride = length (buffer attrs)\<rparr>,
      data = buffer attrs @ replicate (length (buffer attrs) * 31) 0,
      ia = \<lparr>ia_id = n + 1,
             attributes = attributes (inputAssembler subModel) @
               map (\<lambda>a. \<lparr>attr_name = attr_name a, attr_format = attr_format a,
                          isNormalized = isNormalized a,
                          stream = length (vertexBuffers (inputAssembler subModel)),
                          isInstanced = True\<rparr>) (block_attributes attrs),
             vertexBuffers = vertexBuffers (inputAssembler subModel) @ [n],
             indexBuffer = indexBuffer (inputAssembler subModel), instanceCount = 0\<rparr>,
      stride = length (buffer attrs),
      hShader = sub_hS e subModel passIdx, hDescriptorSet = sub_hD e subModel,
      lightingMap = sub_lm e subModel\<rparr>"

text \<open>The state that \<open>merge\<close> returns on a well-formed aggregator.\<close>

definition merged :: "env \<Rightarrow> SubModel \<Rightarrow> IInstancedAttributeBlock \<Rightarrow> nat \<Rightarrow> InstancedBuffer \<Rightarrow> InstancedBuffer" where
  "merged e subModel attrs passIdx s =
     (case landing e subModel attrs s of
        None \<Rightarrow> s
      | Some k \<Rightarrow>
          if k < length (instances s)
          then s\<lparr>instances := (instances s)
                   [k := appended (sub_hS e subModel passIdx) (sub_hD e subModel) (buffer attrs)
                           (instances s ! k)],
                 hasPendingModels := True\<rparr>
          else s\<lparr>instances := instances s @
                   [new_group e subModel attrs passIdx (created (device s))],
                 hasPendingModels := True,
                 device := (device s)\<lparr>created := created (device s) + 2\<rparr>\<rparr>)"

text \<open>The payloads held by a group: its first \<open>count\<close> slots.\<close>

definition payloads :: "IInstancedItem \<Rightarrow> byte list list" where
  "payloads g = map (slot g) [0..<count g]"

definition upload_item :: "IInstancedItem \<Rightarrow> IInstancedItem" where
  "upload_item g = (if count g = 0 then g else g\<lparr>ia := (ia g)\<lparr>instanceCount := count g\<rparr>\<rparr>)"

definition upload_record :: "IInstancedItem \<Rightarrow> nat \<times> byte list" where
  "upload_record g = (buf_id (vb g), data g)"

definition release_calls :: "IInstancedItem \<Rightarrow> gfx_object list" where
  "release_calls g = [Buffer (buf_id (vb g)), InputAssembler (ia_id (ia g))]"

definition instanced_attribute :: "nat \<Rightarrow> GFXAttribute \<Rightarrow> GFXAttribute" where
  "instanced_attribute n a =
     \<lparr>attr_name = attr_name a, attr_format = attr_format a, isNormalized = isNormalized a,
      stream = n, isInstanced = True\<rparr>"

text \<open>
  What can be seen of a merge in the aggregator before and after it: group \<open>k\<close> has received
  an instance when it is an old group whose count is one higher, the number of groups being
  the same, or when it is a new last group with count 1.
\<close>

definition reached :: "InstancedBuffer \<Rightarrow> InstancedBuffer \<Rightarrow> nat \<Rightarrow> bool" where
  "reached s s' k \<longleftrightarrow>
     k < length (instances s')
     \<and> (if k < length (instances s)
         then length (instances s') = length (instances s)
              \<and> count (instances s' ! k) = count (instances s ! k) + 1
         else k = length (instances s) \<and> count (instances s' ! k) = 1)"

text \<open>A submission with a given index buffer, texture and payload size.\<close>

definition compatible :: "env \<Rightarrow> nat option \<Rightarrow> GFXTexture \<Rightarrow> nat \<Rightarrow> submission \<Rightarrow> bool" where
  "compatible e ib lm st x \<longleftrightarrow>
     sub_ib (sub_model x) = ib \<and> sub_lm e (sub_model x) = lm
     \<and> length (buffer (sub_attrs x)) = st"

definition payload :: "submission \<Rightarrow> byte list" where
  "payload x = buffer (sub_attrs x)"

subsection \<open>Sample inputs\<close>

definition ex_env :: env where
  "ex_env = \<lparr>pool = (\<lambda>h v. 100 * h + v), SHADER_0 = 6, DESCRIPTOR_SET = 10,
     UNIFORM_LIGHTMAP_TEXTURE_BINDING = 11, USAGE_VERTEX = 8, USAGE_TRANSFER_DST = 2,
     MEM_HOST = 2, MEM_DEVICE = 1\<rparr>"

definition ex_subModel :: "nat option \<Rightarrow> GFXTexture \<Rightarrow> nat \<Rightarrow> SubModel" where
  "ex_subModel ib lm h =
     \<lparr>inputAssembler =
        \<lparr>ia_id = 900,
         attributes = [\<lparr>attr_name = ''a_position'', attr_format = 32, isNormalized = False,
                        stream = 0, isInstanced = False\<rparr>],
         vertexBuffers = [901], indexBuffer = ib, instanceCount = 0\<rparr>,
      descriptorSet = (\<lambda>b. if b = 11 then lm else None),
      handle = h\<rparr>"

definition ex_attrs :: "byte list \<Rightarrow> IInstancedAttributeBlock" where
  "ex_attrs bytes =
     \<lparr>buffer = bytes,
      block_attributes = [\<lparr>attr_name = ''a_matWorld0'', attr_format = 44, isNormalized = False,
                            stream = 0, isInstanced = False\<rparr>]\<rparr>"

definition ex_pass :: Pass where
  "ex_pass = \<lparr>pass_device = \<lparr>created = 0, released = []\<rparr>, pass_handle = 7\<rparr>"

definition ex_sub :: "nat option \<Rightarrow> GFXTexture \<Rightarrow> nat \<Rightarrow> byte list \<Rightarrow> submission" where
  "ex_sub ib lm h bytes =
     \<lparr>sub_model = ex_subModel ib lm h, sub_attrs = ex_attrs bytes, sub_passIdx = 0,
      sub_implant = None\<rparr>"

text \<open>A group with room for 32 instances of two bytes that holds \<open>n\<close> of them.\<close>

definition ex_group :: "nat \<Rightarrow> IInstancedItem" where
  "ex_group n =
     \<lparr>count = n, capacity = 32,
      vb = \<lparr>buf_id = 0, buf_usage = 10, buf_memUsage = 3, buf_size = 64, buf_stride = 2\<rparr>,
      data = replicate 64 0,
      ia = \<lparr>ia_id = 1, attributes = [], vertexBuffers = [901, 0], indexBuffer = Some 5,
             instanceCount = 0\<rparr>,
      stride = 2, hShader = 306, hDescriptorSet = 310, lightingMap = None\<rparr>"

definition ex_state :: "nat \<Rightarrow> InstancedBuffer" where
  "ex_state n =
     \<lparr>instances = [ex_group n], hPass = 7, hasPendingModels = (0 < n), dynamicOffsets = [],
      device = \<lparr>created = 2, released = []\<rparr>\<rparr>"

text \<open>A full group of capacity 1024 for instances of two bytes, with \<open>n\<close> instances.\<close>

definition ex_big_state :: "nat \<Rightarrow> InstancedBuffer" where
  "ex_big_state n =
     \<lparr>instances = [(ex_group n)\<lparr>capacity := 1024, data := replicate 2048 0,
                                 vb := (vb (ex_group n))\<lparr>buf_size := 2048\<rparr>\<rparr>],
      hPass = 7, hasPendingModels = (0 < n), dynamicOffsets = [],
      device = \<lparr>created = 2, released = []\<rparr>\<rparr>"

text \<open>A new aggregator after one submission of two bytes.\<close>

definition ex_one :: InstancedBuffer where
  "ex_one =
     \<lparr>instances =
        [\<lparr>count = 1, capacity = 32,
          vb = \<lparr>buf_id = 0, buf_usage = 10, buf_memUsage = 3, buf_size = 64, buf_stride = 2\<rparr>,
          data = [1, 2] @ replicate 62 0,
          ia = \<lparr>ia_id = 1,
                 attributes =
                   [\<lparr>attr_name = ''a_position'', attr_format = 32, isNormalized = False,
                     stream = 0, isInstanced = False\<rparr>,
                    \<lparr>attr_name = ''a_matWorld0'', attr_format = 44, isNormalized = False,
                     stream = 1, isInstanced = True\<rparr>],
                 vertexBuffers = [901, 0], indexBuffer = Some 5, instanceCount = 0\<rparr>,
          stride = 2, hShader = 306, hDescriptorSet = 310, lightingMap = None\<rparr>],
      hPass = 7, hasPendingModels = True, dynamicOffsets = [],
      device = \<lparr>created = 2, released = []\<rparr>\<rparr>"

text \<open>
  Two frames of one submission, repeated: 1025 merges into a new aggregator and \<open>clear\<close>,
  then 1024 merges, then one more.
\<close>

definition ex_x :: submission where
  "ex_x = ex_sub (Some 5) None 3 [1]"

definition ex_frame1 :: InstancedBuffer where
  "ex_frame1 = projr (merge_all ex_env (replicate 1025 ex_x) (new_InstancedBuffer ex_pass))"

definition ex_refilled :: InstancedBuffer where
  "ex_refilled = projr (merge_all ex_env (replicate 1024 ex_x) (clear ex_frame1))"

definition ex_overflowed :: InstancedBuffer where
  "ex_overflowed = projr (merge ex_env (sub_model ex_x) (sub_attrs ex_x) 0 None ex_refilled)"

declare destroy_loop.simps [simp del] clear_loop.simps [simp del]
  uploadBuffers_loop.simps [simp del] merge_loop.simps [simp del]
  push_attributes.simps [simp del]

section \<open>The model on sample inputs\<close>

text \<open>
  The definitions compute. Three submissions with the same index buffer, no texture and
  two bytes each, merged into a new aggregator, give one group that holds the three payloads
  at the start of its buffer.
\<close>

lemma three_merges_example:
  "merge_all ex_env
     [ex_sub (Some 5) None 3 [1, 2], ex_sub (Some 5) None 3 [3, 4], ex_sub (Some 5) None 3 [5, 6]]
     (new_InstancedBuffer ex_pass) =
   Inr \<lparr>instances =
          [\<lparr>count = 3, capacity = 32,
            vb = \<lparr>buf_id = 0, buf_usage = 10, buf_memUsage = 3, buf_size = 64, buf_stride = 2\<rparr>,
            data = [1, 2, 3, 4, 5, 6] @ replicate 58 0,
            ia = \<lparr>ia_id = 1,
                   attributes =
                     [\<lparr>attr_name = ''a_position'', attr_format = 32, isNormalized = False,
                       stream = 0, isInstanced = False\<rparr>,
                      \<lparr>attr_name = ''a_matWorld0'', attr_format = 44, isNormalized = False,
                       stream = 1, isInstanced = True\<rparr>],
                   vertexBuffers = [901, 0], indexBuffer = Some 5, instanceCount = 0\<rparr>,
            stride = 2, hShader = 306, hDescriptorSet = 310, lightingMap = None\<rparr>],
        hPass = 7, hasPendingModels = True, dynamicOffsets = [],
        device = \<lparr>created = 2, released = []\<rparr>\<rparr>"
  by (simp add: merge_def merge_loop.simps merge_create_def merge_append_def resize_buffers_def
      push_attributes.simps u8_set_def createBuffer_def createInputAssembler_def
      new_InstancedBuffer_def ex_pass_def ex_env_def ex_sub_def ex_subModel_def ex_attrs_def
      INITIAL_CAPACITY_def MAX_CAPACITY_def Let_def replicate_add [symmetric])

text \<open>
  A full group of capacity 32 is doubled; a payload of another size is dropped; a group with
  1024 instances is passed over and a group is created; a frame ends with \<open>uploadBuffers\<close>
  and \<open>clear\<close>.
\<close>

lemma growth_example:
  "merge ex_env (ex_subModel (Some 5) None 3) (ex_attrs [1, 2]) 0 None (ex_state 32) =
   Inr \<lparr>instances =
          [\<lparr>count = 33, capacity = 64,
            vb = \<lparr>buf_id = 0, buf_usage = 10, buf_memUsage = 3, buf_size = 128, buf_stride = 2\<rparr>,
            data = replicate 64 0 @ [1, 2] @ replicate 62 0,
            ia = \<lparr>ia_id = 1, attributes = [], vertexBuffers = [901, 0], indexBuffer = Some 5,
                   instanceCount = 0\<rparr>,
            stride = 2, hShader = 306, hDescriptorSet = 310, lightingMap = None\<rparr>],
        hPass = 7, hasPendingModels = True, dynamicOffsets = [],
        device = \<lparr>created = 2, released = []\<rparr>\<rparr>"
  by (simp add: merge_def merge_loop.simps merge_append_def resize_buffers_def shl1_def
      u8_set_def resize_def ex_state_def ex_group_def ex_env_def ex_subModel_def ex_attrs_def
      MAX_CAPACITY_def Let_def)

lemma stride_mismatch_example:
  "merge ex_env (ex_subModel (Some 5) None 3) (ex_attrs [1, 2, 3]) 0 None (ex_state 1) =
   Inr (ex_state 1)"
  by (simp add: merge_def merge_loop.simps ex_state_def ex_group_def ex_env_def ex_subModel_def
      ex_attrs_def MAX_CAPACITY_def Let_def)

lemma full_group_example:
  "merge ex_env (ex_subModel (Some 5) None 3) (ex_attrs [1, 2]) 0 None (ex_big_state 1024) =
   Inr ((ex_big_state 1024)
     \<lparr>instances := instances (ex_big_state 1024) @
        [\<lparr>count = 1, capacity = 32,
          vb = \<lparr>buf_id = 2, buf_usage = 10, buf_memUsage = 3, buf_size = 64, buf_stride = 2\<rparr>,
          data = [1, 2] @ replicate 62 0,
          ia = \<lparr>ia_id = 3,
                 attributes =
                   [\<lparr>attr_name = ''a_position'', attr_format = 32, isNormalized = False,
                     stream = 0, isInstanced = False\<rparr>,
                    \<lparr>attr_name = ''a_matWorld0'', attr_format = 44, isNormalized = False,
                     stream = 1, isInstanced = True\<rparr>],
                 vertexBuffers = [901, 2], indexBuffer = Some 5, instanceCount = 0\<rparr>,
          stride = 2, hShader = 306, hDescriptorSet = 310, lightingMap = None\<rparr>],
      device := \<lparr>created = 4, released = []\<rparr>\<rparr>)"
  by (simp add: merge_def merge_loop.simps merge_create_def push_attributes.simps u8_set_def
      createBuffer_def createInputAssembler_def ex_big_state_def ex_group_def ex_env_def
      ex_subModel_def ex_attrs_def INITIAL_CAPACITY_def MAX_CAPACITY_def Let_def)

lemma frame_example:
  "uploadBuffers [] (ex_state 2) =
     ((ex_state 2)\<lparr>instances := [(ex_group 2)\<lparr>ia := (ia (ex_group 2))\<lparr>instanceCount := 2\<rparr>\<rparr>]\<rparr>,
      [(0, replicate 64 0)])"
  "clear (ex_state 2) = ex_state 0"
  "destroy (ex_state 2) =
     (ex_state 2)\<lparr>instances := [],
                   device := \<lparr>created = 2, released = [Buffer 0, InputAssembler 1]\<rparr>\<rparr>"
  by (simp_all add: uploadBuffers_def uploadBuffers_loop.simps updateBuffer_def clear_def
      clear_loop.simps destroy_def destroy_loop.simps destroy_object_def ex_state_def
      ex_group_def)

section \<open>The loops in closed form\<close>

lemma take_map_drop_step:
  "i < length xs \<Longrightarrow>
   take (Suc i) (xs[i := f (xs ! i)]) @ map f (drop (Suc i) (xs[i := f (xs ! i)])) =
   take i xs @ map f (drop i xs)"
  by (simp add: take_Suc_conv_app_nth Cons_nth_drop_Suc [symmetric])

lemma uploadBuffers_loop_eq:
  "uploadBuffers_loop i (s, c) =
     (s\<lparr>instances := take i (instances s) @ map upload_item (drop i (instances s))\<rparr>,
      c @ map upload_record (filter (\<lambda>g. count g \<noteq> 0) (drop i (instances s))))"
proof (induction i "(s, c)" arbitrary: s c rule: uploadBuffers_loop.induct)
  case (1 i s c)
  show ?case
  proof (cases "i < length (instances s)")
    case False
    then show ?thesis by (subst uploadBuffers_loop.simps) simp
  next
    case True
    note step = take_map_drop_step [OF True, of upload_item]
    have dr: "drop i (instances s) = instances s ! i # drop (Suc i) (instances s)"
      using True by (simp add: Cons_nth_drop_Suc)
    show ?thesis
    proof (cases "count (instances s ! i) = 0")
      case z: True
      have up: "upload_item (instances s ! i) = instances s ! i"
        using z by (simp add: upload_item_def)
      have "uploadBuffers_loop i (s, c) = uploadBuffers_loop (i + 1) (s, c)"
        using True z by (subst uploadBuffers_loop.simps) simp
      also have "\<dots> = (s\<lparr>instances := take (Suc i) (instances s) @ map upload_item (drop (Suc i) (instances s))\<rparr>,
          c @ map upload_record (filter (\<lambda>g. count g \<noteq> 0) (drop (Suc i) (instances s))))"
        using "1.hyps"(1) [OF True z] by simp
      also have "\<dots> = (s\<lparr>instances := take i (instances s) @ map upload_item (drop i (instances s))\<rparr>,
          c @ map upload_record (filter (\<lambda>g. count g \<noteq> 0) (drop i (instances s))))"
        using step up z by (simp add: dr [symmetric]) (simp add: dr)
      finally show ?thesis .
    next
      case nz: False
      have up: "upload_item (instances s ! i) =
          (instances s ! i)\<lparr>ia := (ia (instances s ! i))\<lparr>instanceCount := count (instances s ! i)\<rparr>\<rparr>"
        using nz by (simp add: upload_item_def)
      have "uploadBuffers_loop i (s, c) = uploadBuffers_loop (i + 1)
                   (s\<lparr>instances := (instances s)[i := upload_item (instances s ! i)]\<rparr>,
                    updateBuffer c (vb (instances s ! i)) (data (instances s ! i)))"
        using True nz by (subst uploadBuffers_loop.simps) (simp add: up)
      also have "\<dots> = (s\<lparr>instances := take i (instances s) @ map upload_item (drop i (instances s))\<rparr>,
          c @ map upload_record (filter (\<lambda>g. count g \<noteq> 0) (drop i (instances s))))"
        using "1.hyps"(2) [OF True nz] step nz
        by (simp add: up [symmetric] updateBuffer_def) (simp add: dr upload_record_def)
      finally show ?thesis .
    qed
  qed
qed

lemma destroy_loop_eq:
  "destroy_loop i s =
     s\<lparr>device := (device s)\<lparr>released := released (device s) @
          concat (map release_calls (drop i (instances s)))\<rparr>\<rparr>"
proof (induction i s rule: destroy_loop.induct)
  case (1 i s)
  show ?case
  proof (cases "i < length (instances s)")
    case False
    then show ?thesis by (subst destroy_loop.simps) simp
  next
    case True
    have dr: "drop i (instances s) = instances s ! i # drop (Suc i) (instances s)"
      using True by (simp add: Cons_nth_drop_Suc)
    have rc: "release_calls (instances s ! i) =
        [Buffer (buf_id (vb (instances s ! i))), InputAssembler (ia_id (ia (instances s ! i)))]"
      by (simp add: release_calls_def)
    show ?thesis
      using True "1.IH" [OF True]
      by (subst destroy_loop.simps) (simp add: dr destroy_object_def rc)
  qed
qed

lemma push_attributes_eq:
  "push_attributes as n i acc = acc @ map (instanced_attribute n) (drop i as)"
proof (induction as n i acc rule: push_attributes.induct)
  case (1 as n i acc)
  show ?case
  proof (cases "i < length as")
    case False
    then show ?thesis by (subst push_attributes.simps) simp
  next
    case True
    have dr: "drop i as = as ! i # drop (Suc i) as"
      using True by (simp add: Cons_nth_drop_Suc)
    have rc: "instanced_attribute n (as ! i) =
        \<lparr>attr_name = attr_name (as ! i), attr_format = attr_format (as ! i),
         isNormalized = isNormalized (as ! i), stream = n, isInstanced = True\<rparr>"
      by (simp add: instanced_attribute_def)
    show ?thesis
      using True "1.IH" [OF True]
      by (subst push_attributes.simps) (simp add: dr rc)
  qed
qed

lemma merge_loop_eq:
  "merge_loop buf ib lm hS hD i s =
     (case first_match ib lm i (drop i (instances s)) of
        None \<Rightarrow> None
      | Some k \<Rightarrow> Some (if stride (instances s ! k) \<noteq> length buf then Inr s
                        else merge_append hS hD buf k s))"
proof (induction buf ib lm hS hD i s rule: merge_loop.induct)
  case (1 buf ib lm hS hD i s)
  show ?case
  proof (cases "i < length (instances s)")
    case False
    then show ?thesis by (subst merge_loop.simps) simp
  next
    case True
    have dr: "drop i (instances s) = instances s ! i # drop (Suc i) (instances s)"
      using True by (simp add: Cons_nth_drop_Suc)
    show ?thesis
    proof (cases "matches ib lm (instances s ! i)")
      case m: True
      then show ?thesis
        using True by (subst merge_loop.simps) (simp add: dr matches_def)
    next
      case nm: False
      show ?thesis
      proof (cases "indexBuffer (ia (instances s ! i)) \<noteq> ib \<or> MAX_CAPACITY \<le> count (instances s ! i)")
        case a: True
        show ?thesis
          using True a nm "1.IH"(1) [OF True a]
          by (subst merge_loop.simps) (simp add: dr)
      next
        case b: False
        then have c: "lightingMap (instances s ! i) \<noteq> lm"
          using nm by (auto simp: matches_def)
        show ?thesis
          using True b c nm "1.IH"(2) [OF True b c]
          by (subst merge_loop.simps) (simp add: dr)
      qed
    qed
  qed
qed

section \<open>Arithmetic and list facts\<close>

lemma shl1_small: "c < 2 ^ 30 \<Longrightarrow> shl1 c = 2 * int c"
proof -
  assume c: "c < 2 ^ 30"
  have "shl1 c = sint (word_of_int (2 * int c) :: 32 word)"
    by (simp add: shl1_def push_bit_eq_mult mult.commute)
  also have "\<dots> = signed_take_bit 31 (2 * int c)"
    by (simp only: sint_sbintrunc') simp
  also have "\<dots> = 2 * int c"
    using c by (intro signed_take_bit_int_eq_self) auto
  finally show ?thesis .
qed

lemma take_drop_append_low:
  "i + n \<le> length xs \<Longrightarrow> take n (drop i (xs @ ys)) = take n (drop i xs)"
  by simp

lemma take_drop_take_low:
  "i + n \<le> k \<Longrightarrow> k \<le> length xs \<Longrightarrow> take n (drop i (take k xs @ ys)) = take n (drop i xs)"
  by (simp add: min_def take_drop) 

lemma u8_set_zero:
  "length d \<le> n \<Longrightarrow> u8_set (replicate n 0) d 0 = Inr (d @ replicate (n - length d) 0)"
  by (simp add: u8_set_def)

lemma clear_loop_eq:
  "clear_loop i s =
     s\<lparr>instances := take i (instances s) @ map (\<lambda>g. g\<lparr>count := 0\<rparr>) (drop i (instances s))\<rparr>"
proof (induction i s rule: clear_loop.induct)
  case (1 i s)
  show ?case
  proof (cases "i < length (instances s)")
    case True
    have "clear_loop i s = clear_loop (i + 1)
             (s\<lparr>instances := (instances s)[i := (instances s ! i)\<lparr>count := 0\<rparr>]\<rparr>)"
      using True by (subst clear_loop.simps) simp
    also have "\<dots> = s\<lparr>instances := take i (instances s) @ map (\<lambda>g. g\<lparr>count := 0\<rparr>) (drop i (instances s))\<rparr>"
      using True "1.IH" [OF True] take_map_drop_step [OF True, of "\<lambda>g. g\<lparr>count := 0\<rparr>"]
      by simp
    finally show ?thesis .
  next
    case False
    then show ?thesis by (subst clear_loop.simps) simp
  qed
qed

lemma cap_ok_cases: "cap_ok c \<longleftrightarrow> c = 32 \<or> c = 64 \<or> c = 128 \<or> c = 256 \<or> c = 512 \<or> c = 1024"
  by (auto simp: cap_ok_def upt_conv_Cons)

lemma cap_ok_iff: "cap_ok c \<longleftrightarrow> (\<exists>k. c = 32 * 2 ^ k) \<and> c \<le> 1024"
proof
  assume "cap_ok c"
  then consider "c = 32 * 2 ^ 0" | "c = 32 * 2 ^ 1" | "c = 32 * 2 ^ 2" | "c = 32 * 2 ^ 3"
    | "c = 32 * 2 ^ 4" | "c = 32 * 2 ^ 5"
    by (auto simp: cap_ok_cases)
  then show "(\<exists>k. c = 32 * 2 ^ k) \<and> c \<le> 1024"
    by cases (rule conjI, blast, simp)+
next
  assume "(\<exists>k. c = 32 * 2 ^ k) \<and> c \<le> 1024"
  then obtain k where k: "c = 32 * 2 ^ k" and le: "c \<le> 1024" by blast
  have "(2::nat) ^ k \<le> 2 ^ 5" using k le by simp
  have "k \<le> 5"
  proof (rule ccontr)
    assume "\<not> k \<le> 5"
    then have "6 \<le> k" by simp
    then have "(2::nat) ^ 6 \<le> 2 ^ k" by (rule power_increasing) simp
    with \<open>(2::nat) ^ k \<le> 2 ^ 5\<close> show False by simp
  qed
  then have "k \<in> set [0..<6]" by simp
  then show "cap_ok c" unfolding cap_ok_def k set_map by (rule imageI)
qed

lemma cap_ok_double: "cap_ok c \<Longrightarrow> c < 1024 \<Longrightarrow> cap_ok (2 * c)"
  by (auto simp: cap_ok_cases)

lemma cap_ok_bounds: "cap_ok c \<Longrightarrow> 32 \<le> c \<and> c \<le> 1024"
  by (auto simp: cap_ok_cases)

lemma first_match_Some:
  "first_match ib lm i gs = Some k \<Longrightarrow>
     i \<le> k \<and> k < i + length gs \<and> matches ib lm (gs ! (k - i))
       \<and> (\<forall>j < k - i. \<not> matches ib lm (gs ! j))"
proof (induction gs arbitrary: i)
  case Nil
  then show ?case by simp
next
  case (Cons g gs)
  show ?case
  proof (cases "matches ib lm g")
    case True
    with Cons.prems show ?thesis by simp
  next
    case False
    with Cons.prems have fm: "first_match ib lm (i + 1) gs = Some k" by simp
    note ih = Cons.IH [OF fm]
    then have ki: "k - i = Suc (k - (i + 1))" by arith
    show ?thesis
      using ih False by (auto simp: ki less_Suc_eq_0_disj)
  qed
qed

lemma first_match_None:
  "first_match ib lm i gs = None \<longleftrightarrow> (\<forall>g \<in> set gs. \<not> matches ib lm g)"
  by (induction gs arbitrary: i) auto

section \<open>The body of merge on well-formed groups\<close>

lemma resize_buffers_ok:
  assumes "group_inv g" and "count g < MAX_CAPACITY"
  shows "resize_buffers g = Inr (grown g)"
proof (cases "capacity g \<le> count g")
  case False
  then show ?thesis by (simp add: resize_buffers_def grown_def)
next
  case True
  with assms have c: "capacity g < 2 ^ 30" by (simp add: MAX_CAPACITY_def)
  have sh: "shl1 (capacity g) = 2 * int (capacity g)" by (rule shl1_small [OF c])
  have len: "length (data g) = stride g * capacity g" using assms by (simp add: group_inv_def)
  have ns: "nat (int (stride g) * (2 * int (capacity g))) = stride g * (2 * capacity g)"
    by (simp add: nat_mult_distrib)
  have nc: "nat (2 * int (capacity g)) = 2 * capacity g" by simp
  have set: "u8_set (replicate (stride g * (2 * capacity g)) 0) (data g) 0 =
      Inr (data g @ replicate (stride g * capacity g) 0)"
    using len by (simp add: u8_set_zero)
  have nn: "\<not> int (capacity g) * int (stride g) < 0"
    by (simp add: not_less)
  show ?thesis
    using True nn
    by (simp add: resize_buffers_def grown_def sh Let_def ns nc set resize_def del: of_nat_mult)
qed

lemma grown_props:
  assumes "group_inv g" and "count g < MAX_CAPACITY"
  shows "group_inv (grown g)" and "count (grown g) < capacity (grown g)"
    and "count (grown g) = count g" and "stride (grown g) = stride g"
    and "capacity (grown g) = (if capacity g \<le> count g then 2 * capacity g else capacity g)"
proof -
  have cap: "cap_ok (capacity g)" and le: "count g \<le> capacity g"
    and len: "length (data g) = stride g * capacity g"
    using assms by (simp_all add: group_inv_def)
  show "count (grown g) = count g" "stride (grown g) = stride g"
    "capacity (grown g) = (if capacity g \<le> count g then 2 * capacity g else capacity g)"
    by (simp_all add: grown_def)
  show "group_inv (grown g)"
  proof (cases "capacity g \<le> count g")
    case False
    then show ?thesis using assms by (simp add: grown_def)
  next
    case True
    then have "capacity g < 1024" using assms by (simp add: MAX_CAPACITY_def)
    then have "cap_ok (2 * capacity g)" using cap by (rule cap_ok_double [rotated])
    then show ?thesis
      using True le len by (simp add: grown_def group_inv_def algebra_simps)
  qed
  show "count (grown g) < capacity (grown g)"
    using le cap_ok_bounds [OF cap] by (simp add: grown_def)
qed

lemma merge_append_ok:
  assumes "group_inv (instances s ! k)" and "count (instances s ! k) < MAX_CAPACITY"
    and "stride (instances s ! k) = length buf"
  shows "merge_append hS hD buf k s =
     Inr (s\<lparr>instances := (instances s)[k := appended hS hD buf (instances s ! k)],
           hasPendingModels := True\<rparr>)"
proof -
  let ?g = "instances s ! k"
  let ?g1 = "grown ?g"
  have r: "resize_buffers ?g = Inr ?g1" using assms(1,2) by (rule resize_buffers_ok)
  note gp = grown_props [OF assms(1,2)]
  have len: "length (data ?g1) = stride ?g1 * capacity ?g1"
    using gp(1) by (simp add: group_inv_def)
  have "stride ?g1 * count ?g1 + stride ?g1 \<le> stride ?g1 * capacity ?g1"
  proof -
    have "Suc (count ?g1) \<le> capacity ?g1" using gp(2) by simp
    then have "stride ?g1 * Suc (count ?g1) \<le> stride ?g1 * capacity ?g1"
      by (rule mult_le_mono2)
    then show ?thesis by simp
  qed
  then have fit: "\<not> length (data ?g1) < stride ?g1 * count ?g1 + length buf"
    using len assms(3) gp(4) by simp
  have h1: "(if hShader ?g1 \<noteq> hS then ?g1\<lparr>hShader := hS\<rparr> else ?g1) = ?g1\<lparr>hShader := hS\<rparr>"
    by simp
  have h2: "(if hDescriptorSet (?g1\<lparr>hShader := hS\<rparr>) \<noteq> hD
             then ?g1\<lparr>hShader := hS, hDescriptorSet := hD\<rparr>
             else ?g1\<lparr>hShader := hS\<rparr>) = ?g1\<lparr>hShader := hS, hDescriptorSet := hD\<rparr>"
    by simp
  show ?thesis
    unfolding merge_append_def r sum.case Let_def h1 h2
    using fit by (simp add: u8_set_def appended_def written_def)
qed

lemma merge_create_ok:
  "merge_create e subModel attrs (sub_hS e subModel passIdx) (sub_hD e subModel)
       (sub_lm e subModel) s =
     Inr (s\<lparr>instances := instances s @ [new_group e subModel attrs passIdx (created (device s))],
           hasPendingModels := True,
           device := (device s)\<lparr>created := created (device s) + 2\<rparr>\<rparr>)"
proof -
  have set: "u8_set (replicate (length (buffer attrs) * INITIAL_CAPACITY) 0) (buffer attrs) 0 =
      Inr (buffer attrs @ replicate (length (buffer attrs) * 31) 0)"
    by (simp add: u8_set_zero INITIAL_CAPACITY_def)
  show ?thesis
    unfolding merge_create_def Let_def createBuffer_def createInputAssembler_def
      push_attributes_eq prod.case set sum.case
    by (simp add: new_group_def INITIAL_CAPACITY_def instanced_attribute_def [abs_def])
qed

section \<open>One merge on a well-formed aggregator\<close>

lemma state_inv_nth: "state_inv s \<Longrightarrow> k < length (instances s) \<Longrightarrow> group_inv (instances s ! k)"
  by (simp add: state_inv_def list_all_length)

lemma first_match_0:
  assumes "first_match ib lm 0 gs = Some k"
  shows "k < length gs" and "matches ib lm (gs ! k)" and "\<forall>j<k. \<not> matches ib lm (gs ! j)"
  using first_match_Some [OF assms] by simp_all

lemma merge_eq:
  assumes "state_inv s"
  shows "merge e subModel attrs passIdx hShaderImplant s = Inr (merged e subModel attrs passIdx s)"
proof (cases "length (buffer attrs) = 0")
  case True
  then show ?thesis by (simp add: merge_def merged_def landing_def)
next
  case ne: False
  let ?fm = "first_match (sub_ib subModel) (sub_lm e subModel) 0 (instances s)"
  have loop: "merge_loop (buffer attrs) (indexBuffer (inputAssembler subModel))
       (descriptorSet subModel (UNIFORM_LIGHTMAP_TEXTURE_BINDING e))
       (pool e (handle subModel) (SHADER_0 e + passIdx))
       (pool e (handle subModel) (DESCRIPTOR_SET e)) 0 s =
     (case ?fm of None \<Rightarrow> None
      | Some k \<Rightarrow> Some (if stride (instances s ! k) \<noteq> length (buffer attrs) then Inr s
                        else merge_append (sub_hS e subModel passIdx) (sub_hD e subModel)
                               (buffer attrs) k s))"
    unfolding sub_ib_def sub_lm_def sub_hS_def sub_hD_def by (rule merge_loop_eq [where i = 0, simplified])
  show ?thesis
  proof (cases ?fm)
    case None
    have "merge e subModel attrs passIdx hShaderImplant s =
        merge_create e subModel attrs (sub_hS e subModel passIdx) (sub_hD e subModel)
          (sub_lm e subModel) s"
      using ne unfolding merge_def Let_def loop None
      by (simp add: sub_lm_def sub_hS_def sub_hD_def)
    then show ?thesis
      using ne None by (simp add: merge_create_ok merged_def landing_def)
  next
    case (Some k)
    note fm = first_match_0 [OF Some]
    show ?thesis
    proof (cases "stride (instances s ! k) = length (buffer attrs)")
      case False
      then show ?thesis
        using ne unfolding merge_def Let_def loop Some
        by (simp add: merged_def landing_def Some)
    next
      case True
      have gi: "group_inv (instances s ! k)" using assms fm(1) by (rule state_inv_nth)
      have lt: "count (instances s ! k) < MAX_CAPACITY" using fm(2) by (simp add: matches_def)
      have "merge e subModel attrs passIdx hShaderImplant s =
          merge_append (sub_hS e subModel passIdx) (sub_hD e subModel) (buffer attrs) k s"
        using ne True unfolding merge_def Let_def loop Some by simp
      then show ?thesis
        using ne True fm(1) by (simp add: merge_append_ok [OF gi lt True] merged_def landing_def Some)
    qed
  qed
qed

lemma appended_fields:
  "count (appended hS hD buf g) = count g + 1"
  "stride (appended hS hD buf g) = stride g"
  "capacity (appended hS hD buf g) = (if capacity g \<le> count g then 2 * capacity g else capacity g)"
  "hShader (appended hS hD buf g) = hS"
  "hDescriptorSet (appended hS hD buf g) = hD"
  "ia (appended hS hD buf g) = ia g"
  "lightingMap (appended hS hD buf g) = lightingMap g"
  "buf_id (vb (appended hS hD buf g)) = buf_id (vb g)"
  by (simp_all add: appended_def written_def grown_def)

lemma appended_inv:
  assumes "group_inv g" and "count g < MAX_CAPACITY" and "stride g = length buf"
  shows "group_inv (appended hS hD buf g)"
proof -
  note gp = grown_props [OF assms(1,2)]
  have len: "length (data (grown g)) = stride g * capacity (grown g)"
    using gp(1,4) by (simp add: group_inv_def)
  have "Suc (count g) \<le> capacity (grown g)" using gp(2,3) by simp
  then have "stride g * Suc (count g) \<le> stride g * capacity (grown g)"
    by (rule mult_le_mono2)
  then have fit: "stride g * count g + stride g \<le> stride g * capacity (grown g)" by simp
  have l2: "length (data (appended hS hD buf g)) = stride g * capacity (grown g)"
    using fit len assms(3) gp(3,4) by (simp add: appended_def written_def min_def)
  show ?thesis
    using gp l2 unfolding group_inv_def
    by (simp add: appended_def written_def)
qed

lemma appended_slot_new:
  assumes "group_inv g" and "count g < MAX_CAPACITY" and "stride g = length buf"
  shows "slot (appended hS hD buf g) (count g) = buf"
proof -
  note gp = grown_props [OF assms(1,2)]
  have len: "length (data (grown g)) = stride g * capacity (grown g)"
    using gp(1,4) by (simp add: group_inv_def)
  have "count g \<le> capacity (grown g)" using gp(2,3) by simp
  then have "stride g * count g \<le> stride g * capacity (grown g)" by (rule mult_le_mono2)
  then have l: "length (take (stride g * count g) (data (grown g))) = count g * stride g"
    unfolding length_take len by (simp add: min_absorb2 mult.commute)
  show ?thesis
    unfolding slot_def appended_fields
    using l assms(3) gp(3,4) by (simp add: appended_def written_def)
qed

lemma appended_slot_old:
  assumes "group_inv g" and "count g < MAX_CAPACITY" and "stride g = length buf"
    and "i < count g"
  shows "slot (appended hS hD buf g) i = slot g i"
proof -
  note gp = grown_props [OF assms(1,2)]
  have leng: "length (data g) = stride g * capacity g"
    using assms(1) by (simp add: group_inv_def)
  have len: "length (data (grown g)) = stride g * capacity (grown g)"
    using gp(1,4) by (simp add: group_inv_def)
  have "Suc i \<le> count g" using assms(4) by simp
  then have "Suc i * stride g \<le> count g * stride g" by (rule mult_le_mono1)
  then have a: "i * stride g + stride g \<le> stride g * count g" by (simp add: mult.commute)
  have "count g \<le> capacity g" using assms(1) by (simp add: group_inv_def)
  then have b0: "stride g * count g \<le> stride g * capacity g" by (rule mult_le_mono2)
  have "count g \<le> capacity (grown g)" using gp(2,3) by simp
  then have "stride g * count g \<le> stride g * capacity (grown g)" by (rule mult_le_mono2)
  then have b: "stride g * count g \<le> length (data (grown g))" using len by simp
  have "slot (appended hS hD buf g) i =
      take (stride g) (drop (i * stride g)
        (take (stride g * count g) (data (grown g)) @
           (buf @ drop (stride g * count g + length buf) (data (grown g)))))"
    unfolding slot_def appended_fields
    using gp(3,4) by (simp add: appended_def written_def)
  also have "\<dots> = take (stride g) (drop (i * stride g) (data (grown g)))"
    using a b by (rule take_drop_take_low)
  also have "\<dots> = take (stride g) (drop (i * stride g) (data g))"
  proof (cases "capacity g \<le> count g")
    case False
    then show ?thesis by (simp add: grown_def)
  next
    case True
    have "i * stride g + stride g \<le> length (data g)" using a b0 unfolding leng by linarith
    then show ?thesis using True by (simp add: grown_def)
  qed
  finally show ?thesis by (simp add: slot_def)
qed

lemma appended_payloads:
  assumes "group_inv g" and "count g < MAX_CAPACITY" and "stride g = length buf"
  shows "payloads (appended hS hD buf g) = payloads g @ [buf]"
  unfolding payloads_def appended_fields
  using appended_slot_new [OF assms] appended_slot_old [OF assms]
  by simp

lemma new_group_inv: "group_inv (new_group e subModel attrs passIdx n)"
  by (simp add: group_inv_def new_group_def cap_ok_cases)

lemma new_group_payloads:
  "payloads (new_group e subModel attrs passIdx n) = [buffer attrs]"
  by (simp add: payloads_def new_group_def slot_def)

section \<open>The operations in closed form\<close>

lemma clear_eq:
  "clear s = s\<lparr>instances := map (\<lambda>g. g\<lparr>count := 0\<rparr>) (instances s), hasPendingModels := False\<rparr>"
  by (simp add: clear_def clear_loop_eq)

lemma uploadBuffers_eq:
  "uploadBuffers cmdBuff s =
     (s\<lparr>instances := map upload_item (instances s)\<rparr>,
      cmdBuff @ map upload_record (filter (\<lambda>g. count g \<noteq> 0) (instances s)))"
  by (simp add: uploadBuffers_def uploadBuffers_loop_eq)

lemma destroy_eq:
  "destroy s =
     s\<lparr>instances := [],
       device := (device s)\<lparr>released := released (device s)
                    @ concat (map release_calls (instances s))\<rparr>\<rparr>"
  by (simp add: destroy_def destroy_loop_eq)

lemma merged_pending:
  "hasPendingModels (merged e subModel attrs passIdx s) =
     (hasPendingModels s \<or> landing e subModel attrs s \<noteq> None)"
  by (auto simp: merged_def split: option.splits)

lemma ex_state_inv: "n \<le> 32 \<Longrightarrow> state_inv (ex_state n)"
  by (simp add: state_inv_def ex_state_def group_inv_def ex_group_def cap_ok_cases)

lemma ex_landing:
  "n < 1024 \<Longrightarrow> landing ex_env (ex_subModel (Some 5) None 3) (ex_attrs [1, 2]) (ex_state n) = Some 0"
  by (simp add: landing_def ex_attrs_def ex_state_def ex_group_def matches_def sub_ib_def
      sub_lm_def ex_subModel_def ex_env_def MAX_CAPACITY_def)

lemma state_inv_iff:
  "state_inv s \<longleftrightarrow>
     (\<forall>g \<in> set (instances s).
        count g \<le> capacity g \<and> (\<exists>k. capacity g = 32 * 2 ^ k) \<and> capacity g \<le> 1024
        \<and> length (data g) = stride g * capacity g)"
  by (auto simp: state_inv_def list_all_iff group_inv_def cap_ok_iff)

lemma list_all_update:
  "list_all P xs \<Longrightarrow> P y \<Longrightarrow> list_all P (xs[k := y])"
  using set_update_subset_insert [of xs k y] by (auto simp: list_all_iff)

lemma landing_Some:
  assumes "landing e subModel attrs s = Some k"
  shows "length (buffer attrs) \<noteq> 0"
    and "k \<le> length (instances s)"
    and "k < length (instances s) \<Longrightarrow>
           matches (sub_ib subModel) (sub_lm e subModel) (instances s ! k)
           \<and> stride (instances s ! k) = length (buffer attrs)
           \<and> first_match (sub_ib subModel) (sub_lm e subModel) 0 (instances s) = Some k"
    and "k = length (instances s) \<Longrightarrow>
           first_match (sub_ib subModel) (sub_lm e subModel) 0 (instances s) = None"
proof -
  show ne: "length (buffer attrs) \<noteq> 0"
    using assms by (auto simp: landing_def split: if_splits)
  let ?fm = "first_match (sub_ib subModel) (sub_lm e subModel) 0 (instances s)"
  show "k \<le> length (instances s)"
  proof (cases ?fm)
    case None
    then show ?thesis using assms ne by (simp add: landing_def)
  next
    case (Some j)
    then have "j = k" using assms ne by (simp add: landing_def split: if_splits)
    then show ?thesis using first_match_0(1) [OF Some] by simp
  qed
  show "matches (sub_ib subModel) (sub_lm e subModel) (instances s ! k)
           \<and> stride (instances s ! k) = length (buffer attrs) \<and> ?fm = Some k"
    if lt: "k < length (instances s)"
  proof (cases ?fm)
    case None
    then show ?thesis using assms ne lt by (simp add: landing_def)
  next
    case (Some j)
    then have jk: "j = k" and st: "stride (instances s ! j) = length (buffer attrs)"
      using assms ne by (simp_all add: landing_def split: if_splits)
    show ?thesis using first_match_0(2) [OF Some] st Some jk by simp
  qed
  show "?fm = None" if eq: "k = length (instances s)"
  proof (cases ?fm)
    case None
    then show ?thesis .
  next
    case (Some j)
    then have jk: "j = k"
      using assms ne by (simp_all add: landing_def split: if_splits)
    then show ?thesis using first_match_0(1) [OF Some] eq by simp
  qed
qed

lemma merged_inv:
  assumes "state_inv s"
  shows "state_inv (merged e subModel attrs passIdx s)"
proof (cases "landing e subModel attrs s")
  case None
  then show ?thesis using assms by (simp add: merged_def)
next
  case (Some k)
  note l = landing_Some [OF Some]
  show ?thesis
  proof (cases "k < length (instances s)")
    case True
    have gi: "group_inv (instances s ! k)" using assms True by (rule state_inv_nth)
    have lt: "count (instances s ! k) < MAX_CAPACITY" using l(3) [OF True] by (simp add: matches_def)
    have st: "stride (instances s ! k) = length (buffer attrs)" using l(3) [OF True] by simp
    have "group_inv (appended (sub_hS e subModel passIdx) (sub_hD e subModel) (buffer attrs)
        (instances s ! k))"
      using gi lt st by (rule appended_inv)
    then show ?thesis
      using assms True by (simp add: merged_def Some state_inv_def list_all_update)
  next
    case False
    then show ?thesis
      using assms by (simp add: merged_def Some state_inv_def new_group_inv)
  qed
qed

lemma merged_strides:
  "take (length (instances s)) (map stride (instances (merged e subModel attrs passIdx s))) =
     map stride (instances s)"
proof (cases "landing e subModel attrs s")
  case None
  then show ?thesis by (simp add: merged_def)
next
  case (Some k)
  show ?thesis
  proof (cases "k < length (instances s)")
    case True
    have "(map stride (instances s))[k := stride (instances s ! k)] = map stride (instances s)"
      by (metis list_update_id map_update)
    then show ?thesis
      using True by (simp add: merged_def Some map_update appended_fields)
  next
    case False
    then show ?thesis by (simp add: merged_def Some)
  qed
qed

lemma upload_item_inv: "group_inv (upload_item g) = group_inv g"
  by (simp add: group_inv_def upload_item_def)

lemma upload_inv: "state_inv s \<Longrightarrow> state_inv (fst (uploadBuffers cmdBuff s))"
  by (simp add: uploadBuffers_eq state_inv_def list_all_iff upload_item_inv)

lemma clear_inv: "state_inv s \<Longrightarrow> state_inv (clear s)"
  by (simp add: clear_eq state_inv_def list_all_iff group_inv_def)

lemma first_match_iff:
  "first_match ib lm 0 gs = Some k \<longleftrightarrow>
     k < length gs \<and> matches ib lm (gs ! k) \<and> (\<forall>j<k. \<not> matches ib lm (gs ! j))"
proof
  assume "first_match ib lm 0 gs = Some k"
  then show "k < length gs \<and> matches ib lm (gs ! k) \<and> (\<forall>j<k. \<not> matches ib lm (gs ! j))"
    using first_match_0 by blast
next
  assume r: "k < length gs \<and> matches ib lm (gs ! k) \<and> (\<forall>j<k. \<not> matches ib lm (gs ! j))"
  show "first_match ib lm 0 gs = Some k"
  proof (cases "first_match ib lm 0 gs")
    case None
    then have "\<not> matches ib lm (gs ! k)" using r nth_mem [of k gs] by (auto simp: first_match_None)
    with r show ?thesis by simp
  next
    case (Some j)
    note fj = first_match_0 [OF Some]
    have "\<not> j < k" using r fj(2) by blast
    moreover have "\<not> k < j" using r fj(3) by blast
    ultimately show ?thesis using Some by simp
  qed
qed

lemma landing_None_iff:
  "landing e subModel attrs s = None \<longleftrightarrow>
     length (buffer attrs) = 0
     \<or> (\<exists>k<length (instances s).
           matches (sub_ib subModel) (sub_lm e subModel) (instances s ! k)
           \<and> (\<forall>j<k. \<not> matches (sub_ib subModel) (sub_lm e subModel) (instances s ! j))
           \<and> stride (instances s ! k) \<noteq> length (buffer attrs))"
proof (cases "length (buffer attrs) = 0")
  case True
  then show ?thesis by (simp add: landing_def)
next
  case ne: False
  let ?fm = "first_match (sub_ib subModel) (sub_lm e subModel) 0 (instances s)"
  have "landing e subModel attrs s = None \<longleftrightarrow>
      (\<exists>k. ?fm = Some k \<and> stride (instances s ! k) \<noteq> length (buffer attrs))"
    using ne by (cases ?fm) (simp_all add: landing_def)
  also have "\<dots> \<longleftrightarrow> (\<exists>k<length (instances s).
           matches (sub_ib subModel) (sub_lm e subModel) (instances s ! k)
           \<and> (\<forall>j<k. \<not> matches (sub_ib subModel) (sub_lm e subModel) (instances s ! j))
           \<and> stride (instances s ! k) \<noteq> length (buffer attrs))"
    unfolding first_match_iff by blast
  finally show ?thesis using ne by simp
qed

lemma merged_landed:
  assumes "state_inv s" and "landing e subModel attrs s = Some k"
  shows "merged e subModel attrs passIdx s \<noteq> s"
    and "k < length (instances (merged e subModel attrs passIdx s))"
    and "hasPendingModels (merged e subModel attrs passIdx s)"
    and "count (instances (merged e subModel attrs passIdx s) ! k) =
           (if k < length (instances s) then count (instances s ! k) + 1 else 1)"
    and "slot (instances (merged e subModel attrs passIdx s) ! k)
           (if k < length (instances s) then count (instances s ! k) else 0) = buffer attrs"
    and "length (instances (merged e subModel attrs passIdx s)) =
           (if k < length (instances s) then length (instances s) else length (instances s) + 1)"
    and "\<forall>j<length (instances s). j \<noteq> k \<longrightarrow>
           instances (merged e subModel attrs passIdx s) ! j = instances s ! j"
    and "\<forall>i. k < length (instances s) \<and> i < count (instances s ! k) \<longrightarrow>
           slot (instances (merged e subModel attrs passIdx s) ! k) i = slot (instances s ! k) i"
proof -
  let ?s' = "merged e subModel attrs passIdx s"
  note l = landing_Some [OF assms(2)]
  show "k < length (instances ?s')" "hasPendingModels ?s'"
    "length (instances ?s') =
           (if k < length (instances s) then length (instances s) else length (instances s) + 1)"
    "\<forall>j<length (instances s). j \<noteq> k \<longrightarrow> instances ?s' ! j = instances s ! j"
    using l(2) by (auto simp: merged_def assms(2) nth_append)
  show cnt: "count (instances ?s' ! k) =
           (if k < length (instances s) then count (instances s ! k) + 1 else 1)"
    using l(2) by (auto simp: merged_def assms(2) appended_fields new_group_def)
  show "?s' \<noteq> s"
  proof
    assume eq: "?s' = s"
    show False
    proof (cases "k < length (instances s)")
      case True
      then show ?thesis using cnt eq by simp
    next
      case False
      have "length (instances ?s') = length (instances s) + 1"
        using False by (simp add: merged_def assms(2))
      then show ?thesis using eq by simp
    qed
  qed
  show "slot (instances ?s' ! k)
           (if k < length (instances s) then count (instances s ! k) else 0) = buffer attrs"
  proof (cases "k < length (instances s)")
    case True
    have gi: "group_inv (instances s ! k)" using assms(1) True by (rule state_inv_nth)
    have lt: "count (instances s ! k) < MAX_CAPACITY" using l(3) [OF True] by (simp add: matches_def)
    have st: "stride (instances s ! k) = length (buffer attrs)" using l(3) [OF True] by simp
    show ?thesis
      using True appended_slot_new [OF gi lt st] by (simp add: merged_def assms(2))
  next
    case False
    then have "k = length (instances s)" using l(2) by simp
    then show ?thesis
      by (simp add: merged_def assms(2) slot_def new_group_def)
  qed
  show "\<forall>i. k < length (instances s) \<and> i < count (instances s ! k) \<longrightarrow>
           slot (instances ?s' ! k) i = slot (instances s ! k) i"
  proof (intro allI impI)
    fix i
    assume a: "k < length (instances s) \<and> i < count (instances s ! k)"
    then have True: "k < length (instances s)" and i: "i < count (instances s ! k)" by simp_all
    have gi: "group_inv (instances s ! k)" using assms(1) True by (rule state_inv_nth)
    have lt: "count (instances s ! k) < MAX_CAPACITY" using l(3) [OF True] by (simp add: matches_def)
    have st: "stride (instances s ! k) = length (buffer attrs)" using l(3) [OF True] by simp
    show "slot (instances ?s' ! k) i = slot (instances s ! k) i"
      using True appended_slot_old [OF gi lt st i] by (simp add: merged_def assms(2))
  qed
qed

section \<open>Sequences of merges\<close>

lemma merged_keeps:
  assumes "state_inv s" and "j < length (instances s)"
  shows "length (instances s) \<le> length (instances (merged e subModel attrs passIdx s))"
    and "ia (instances (merged e subModel attrs passIdx s) ! j) = ia (instances s ! j)"
    and "lightingMap (instances (merged e subModel attrs passIdx s) ! j) = lightingMap (instances s ! j)"
    and "stride (instances (merged e subModel attrs passIdx s) ! j) = stride (instances s ! j)"
    and "count (instances s ! j) \<le> count (instances (merged e subModel attrs passIdx s) ! j)"
proof -
  let ?s' = "merged e subModel attrs passIdx s"
  have "length (instances s) \<le> length (instances ?s')
      \<and> ia (instances ?s' ! j) = ia (instances s ! j)
      \<and> lightingMap (instances ?s' ! j) = lightingMap (instances s ! j)
      \<and> stride (instances ?s' ! j) = stride (instances s ! j)
      \<and> count (instances s ! j) \<le> count (instances ?s' ! j)"
  proof (cases "landing e subModel attrs s")
    case None
    then show ?thesis by (simp add: merged_def)
  next
    case (Some k)
    show ?thesis
    proof (cases "k < length (instances s)")
      case True
      then show ?thesis
        using assms(2) by (cases "j = k") (simp_all add: merged_def Some appended_fields)
    next
      case False
      then show ?thesis
        using assms(2) by (simp add: merged_def Some nth_append)
    qed
  qed
  then show "length (instances s) \<le> length (instances ?s')"
    "ia (instances ?s' ! j) = ia (instances s ! j)"
    "lightingMap (instances ?s' ! j) = lightingMap (instances s ! j)"
    "stride (instances ?s' ! j) = stride (instances s ! j)"
    "count (instances s ! j) \<le> count (instances ?s' ! j)"
    by simp_all
qed

lemma merged_length: "length (instances s) \<le> length (instances (merged e subModel attrs passIdx s))"
  by (auto simp: merged_def split: option.splits)

lemma merge_all_keeps:
  assumes "state_inv s"
  shows "\<exists>s'. merge_all e subs s = Inr s' \<and> state_inv s'
     \<and> length (instances s) \<le> length (instances s')
     \<and> (\<forall>j<length (instances s).
           ia (instances s' ! j) = ia (instances s ! j)
           \<and> lightingMap (instances s' ! j) = lightingMap (instances s ! j)
           \<and> stride (instances s' ! j) = stride (instances s ! j)
           \<and> count (instances s ! j) \<le> count (instances s' ! j))"
  using assms
proof (induction subs arbitrary: s)
  case Nil
  then show ?case by simp
next
  case (Cons x xs)
  let ?s1 = "merged e (sub_model x) (sub_attrs x) (sub_passIdx x) s"
  have i1: "state_inv ?s1" using Cons.prems by (rule merged_inv)
  obtain s' where s': "merge_all e xs ?s1 = Inr s'" "state_inv s'"
    "length (instances ?s1) \<le> length (instances s')"
    and k: "\<forall>j<length (instances ?s1).
           ia (instances s' ! j) = ia (instances ?s1 ! j)
           \<and> lightingMap (instances s' ! j) = lightingMap (instances ?s1 ! j)
           \<and> stride (instances s' ! j) = stride (instances ?s1 ! j)
           \<and> count (instances ?s1 ! j) \<le> count (instances s' ! j)"
    using Cons.IH [OF i1] by blast
  have len: "length (instances s) \<le> length (instances ?s1)" by (rule merged_length)
  have "\<forall>j<length (instances s).
           ia (instances s' ! j) = ia (instances s ! j)
           \<and> lightingMap (instances s' ! j) = lightingMap (instances s ! j)
           \<and> stride (instances s' ! j) = stride (instances s ! j)
           \<and> count (instances s ! j) \<le> count (instances s' ! j)"
  proof (intro allI impI)
    fix j assume j: "j < length (instances s)"
    then have j1: "j < length (instances ?s1)" using len by simp
    note mk = merged_keeps [OF Cons.prems j, of e "sub_model x" "sub_attrs x" "sub_passIdx x"]
    show "ia (instances s' ! j) = ia (instances s ! j)
           \<and> lightingMap (instances s' ! j) = lightingMap (instances s ! j)
           \<and> stride (instances s' ! j) = stride (instances s ! j)
           \<and> count (instances s ! j) \<le> count (instances s' ! j)"
      using k [rule_format, OF j1] mk(2,3,4,5) by simp
  qed
  then show ?case
    using s' len by (simp add: merge_eq [OF Cons.prems])
qed

lemma not_matches_kept:
  assumes "\<not> matches ib lm g" and "ia g' = ia g" and "lightingMap g' = lightingMap g"
    and "count g \<le> count g'"
  shows "\<not> matches ib lm g'"
  using assms by (auto simp: matches_def)

lemma merge_all_into:
  assumes "state_inv s" and "k < length (instances s)"
    and "\<forall>j<k. \<not> matches ib lm (instances s ! j)"
    and "indexBuffer (ia (instances s ! k)) = ib" and "lightingMap (instances s ! k) = lm"
    and "stride (instances s ! k) = st" and "0 < st"
    and "list_all (compatible e ib lm st) subs"
    and "count (instances s ! k) + length subs \<le> 1024"
  shows "\<exists>s'. merge_all e subs s = Inr s' \<and> state_inv s'
     \<and> length (instances s') = length (instances s)
     \<and> (\<forall>j<length (instances s). j \<noteq> k \<longrightarrow> instances s' ! j = instances s ! j)
     \<and> payloads (instances s' ! k) = payloads (instances s ! k) @ map payload subs
     \<and> count (instances s' ! k) = count (instances s ! k) + length subs
     \<and> stride (instances s' ! k) = st
     \<and> ia (instances s' ! k) = ia (instances s ! k)
     \<and> lightingMap (instances s' ! k) = lm"
  using assms
proof (induction subs arbitrary: s)
  case Nil
  then show ?case by simp
next
  case (Cons x xs)
  let ?g = "instances s ! k"
  let ?s1 = "merged e (sub_model x) (sub_attrs x) (sub_passIdx x) s"
  have cx: "compatible e ib lm st x" and cxs: "list_all (compatible e ib lm st) xs"
    using Cons.prems(8) by simp_all
  have key: "sub_ib (sub_model x) = ib" "sub_lm e (sub_model x) = lm"
    "length (buffer (sub_attrs x)) = st"
    using cx by (simp_all add: compatible_def)
  have lt: "count ?g < MAX_CAPACITY" using Cons.prems(9) by (simp add: MAX_CAPACITY_def)
  have m: "matches ib lm ?g" using Cons.prems(4,5) lt by (simp add: matches_def)
  have fm: "first_match ib lm 0 (instances s) = Some k"
    using Cons.prems(2,3) m by (simp add: first_match_iff)
  have l: "landing e (sub_model x) (sub_attrs x) s = Some k"
    using fm Cons.prems(6,7) by (simp add: landing_def key)
  have gi: "group_inv ?g" using Cons.prems(1,2) by (rule state_inv_nth)
  have st: "stride ?g = length (buffer (sub_attrs x))" using Cons.prems(6) key by simp
  let ?g1 = "appended (sub_hS e (sub_model x) (sub_passIdx x)) (sub_hD e (sub_model x))
               (buffer (sub_attrs x)) ?g"
  have s1: "?s1 = s\<lparr>instances := (instances s)[k := ?g1], hasPendingModels := True\<rparr>"
    using Cons.prems(2) by (simp add: merged_def l)
  have i1: "state_inv ?s1" using Cons.prems(1) by (rule merged_inv)
  have n1: "instances ?s1 ! k = ?g1" and len1: "length (instances ?s1) = length (instances s)"
    and oth1: "\<And>j. j \<noteq> k \<Longrightarrow> instances ?s1 ! j = instances s ! j"
    using Cons.prems(2) by (simp_all add: s1)
  have p1: "payloads ?g1 = payloads ?g @ [buffer (sub_attrs x)]"
    using gi lt st by (rule appended_payloads)
  have pre: "k < length (instances ?s1)"
    "\<forall>j<k. \<not> matches ib lm (instances ?s1 ! j)"
    "indexBuffer (ia (instances ?s1 ! k)) = ib" "lightingMap (instances ?s1 ! k) = lm"
    "stride (instances ?s1 ! k) = st"
    "count (instances ?s1 ! k) + length xs \<le> 1024"
    using Cons.prems(2,3,4,5,6,9) oth1 by (simp_all add: n1 len1 appended_fields)
  obtain s' where s': "merge_all e xs ?s1 = Inr s'" "state_inv s'"
    "length (instances s') = length (instances ?s1)"
    "\<forall>j<length (instances ?s1). j \<noteq> k \<longrightarrow> instances s' ! j = instances ?s1 ! j"
    "payloads (instances s' ! k) = payloads (instances ?s1 ! k) @ map payload xs"
    "count (instances s' ! k) = count (instances ?s1 ! k) + length xs"
    "stride (instances s' ! k) = st"
    "ia (instances s' ! k) = ia (instances ?s1 ! k)"
    "lightingMap (instances s' ! k) = lm"
    using Cons.IH [OF i1 pre(1,2,3,4,5) Cons.prems(7) cxs pre(6)] by blast
  have "merge_all e (x # xs) s = Inr s'"
    using s'(1) by (simp add: merge_eq [OF Cons.prems(1)])
  moreover have "\<forall>j<length (instances s). j \<noteq> k \<longrightarrow> instances s' ! j = instances s ! j"
    using s'(4) oth1 len1 by simp
  moreover have "payloads (instances s' ! k) = payloads ?g @ map payload (x # xs)"
    using s'(5) p1 by (simp add: n1 payload_def)
  moreover have "count (instances s' ! k) = count ?g + length (x # xs)"
    using s'(6) by (simp add: n1 appended_fields)
  moreover have "ia (instances s' ! k) = ia ?g"
    using s'(8) by (simp add: n1 appended_fields)
  ultimately show ?case using s'(2,3,7,9) len1 by simp
qed

lemma payloads_nth: "i < count g \<Longrightarrow> payloads g ! i = slot g i"
  by (simp add: payloads_def)

lemma length_payloads: "length (payloads g) = count g"
  by (simp add: payloads_def)

lemma payloads_append_slots:
  assumes "payloads g' = payloads g @ ps" and "count g' = count g + length ps"
  shows "\<forall>i<count g. slot g' i = slot g i"
    and "\<forall>i<length ps. slot g' (count g + i) = ps ! i"
proof -
  show "\<forall>i<count g. slot g' i = slot g i"
  proof (intro allI impI)
    fix i assume i: "i < count g"
    then have "slot g' i = payloads g' ! i" using assms(2) by (simp add: payloads_nth)
    also have "\<dots> = payloads g ! i" using i by (simp add: assms(1) nth_append length_payloads)
    finally show "slot g' i = slot g i" using i by (simp add: payloads_nth)
  qed
  show "\<forall>i<length ps. slot g' (count g + i) = ps ! i"
  proof (intro allI impI)
    fix i assume i: "i < length ps"
    then have "slot g' (count g + i) = payloads g' ! (count g + i)"
      using assms(2) by (simp add: payloads_nth)
    also have "\<dots> = ps ! i" by (simp add: assms(1) nth_append length_payloads)
    finally show "slot g' (count g + i) = ps ! i" .
  qed
qed

lemma merge_all_new:
  assumes "state_inv s" and "first_match ib lm 0 (instances s) = None" and "0 < st"
    and "list_all (compatible e ib lm st) (x # xs)" and "length (x # xs) \<le> 1024"
  shows "\<exists>s' g. merge_all e (x # xs) s = Inr s' \<and> state_inv s'
     \<and> instances s' = instances s @ [g]
     \<and> payloads g = map payload (x # xs)
     \<and> count g = length (x # xs) \<and> stride g = st
     \<and> indexBuffer (ia g) = ib \<and> lightingMap g = lm"
proof -
  let ?n = "length (instances s)"
  let ?s1 = "merged e (sub_model x) (sub_attrs x) (sub_passIdx x) s"
  let ?ng = "new_group e (sub_model x) (sub_attrs x) (sub_passIdx x) (created (device s))"
  have cx: "compatible e ib lm st x" and cxs: "list_all (compatible e ib lm st) xs"
    using assms(4) by simp_all
  have key: "sub_ib (sub_model x) = ib" "sub_lm e (sub_model x) = lm"
    "length (buffer (sub_attrs x)) = st"
    using cx by (simp_all add: compatible_def)
  have l: "landing e (sub_model x) (sub_attrs x) s = Some ?n"
    using assms(2,3) by (simp add: landing_def key)
  have s1: "instances ?s1 = instances s @ [?ng]"
    by (simp add: merged_def l)
  have i1: "state_inv ?s1" using assms(1) by (rule merged_inv)
  have nm: "\<forall>j<?n. \<not> matches ib lm (instances ?s1 ! j)"
    using assms(2) by (simp add: first_match_None s1 nth_append)
  have ng: "indexBuffer (ia ?ng) = ib" "lightingMap ?ng = lm" "stride ?ng = st" "count ?ng = 1"
    using key by (simp_all add: new_group_def sub_ib_def)
  have ngp: "payloads ?ng = [payload x]"
    by (simp add: new_group_payloads payload_def)
  have pre: "?n < length (instances ?s1)"
    "indexBuffer (ia (instances ?s1 ! ?n)) = ib" "lightingMap (instances ?s1 ! ?n) = lm"
    "stride (instances ?s1 ! ?n) = st" "count (instances ?s1 ! ?n) + length xs \<le> 1024"
    using ng assms(5) by (simp_all add: s1)
  obtain s' where s': "merge_all e xs ?s1 = Inr s'" "state_inv s'"
    "length (instances s') = length (instances ?s1)"
    "\<forall>j<length (instances ?s1). j \<noteq> ?n \<longrightarrow> instances s' ! j = instances ?s1 ! j"
    "payloads (instances s' ! ?n) = payloads (instances ?s1 ! ?n) @ map payload xs"
    "count (instances s' ! ?n) = count (instances ?s1 ! ?n) + length xs"
    "stride (instances s' ! ?n) = st"
    "ia (instances s' ! ?n) = ia (instances ?s1 ! ?n)"
    "lightingMap (instances s' ! ?n) = lm"
    using merge_all_into [OF i1 pre(1) nm pre(2,3,4) assms(3) cxs pre(5)] by blast
  have m: "merge_all e (x # xs) s = Inr s'"
    using s'(1) by (simp add: merge_eq [OF assms(1)])
  have eq: "instances s' = instances s @ [instances s' ! ?n]"
  proof (rule nth_equalityI)
    show "length (instances s') = length (instances s @ [instances s' ! ?n])"
      using s'(3) by (simp add: s1)
    fix j assume "j < length (instances s')"
    then have j: "j < Suc ?n" using s'(3) by (simp add: s1)
    show "instances s' ! j = (instances s @ [instances s' ! ?n]) ! j"
    proof (cases "j = ?n")
      case True
      then show ?thesis by simp
    next
      case False
      then have "j < ?n" using j by simp
      then show ?thesis using s'(4) False by (simp add: s1 nth_append)
    qed
  qed
  have "payloads (instances s' ! ?n) = map payload (x # xs)"
    "count (instances s' ! ?n) = length (x # xs)"
    "indexBuffer (ia (instances s' ! ?n)) = ib"
    using s'(5,6,8) ng ngp by (simp_all add: s1)
  then show ?thesis using m s'(2,7,9) eq by blast
qed

lemma merge_all_append:
  "merge_all e (xs @ ys) s =
     (case merge_all e xs s of Inl err \<Rightarrow> Inl err | Inr s' \<Rightarrow> merge_all e ys s')"
  by (induction xs arbitrary: s) (simp_all split: sum.splits)

lemma landed_key:
  assumes "state_inv s" and "landing e subModel attrs s = Some a"
  shows "a < length (instances (merged e subModel attrs passIdx s))"
    and "indexBuffer (ia (instances (merged e subModel attrs passIdx s) ! a)) = sub_ib subModel"
    and "lightingMap (instances (merged e subModel attrs passIdx s) ! a) = sub_lm e subModel"
    and "stride (instances (merged e subModel attrs passIdx s) ! a) = length (buffer attrs)"
    and "\<forall>j<a. \<not> matches (sub_ib subModel) (sub_lm e subModel)
                  (instances (merged e subModel attrs passIdx s) ! j)"
proof -
  let ?s1 = "merged e subModel attrs passIdx s"
  note l = landing_Some [OF assms(2)]
  show "a < length (instances ?s1)" using merged_landed(2) [OF assms] .
  have "indexBuffer (ia (instances ?s1 ! a)) = sub_ib subModel
      \<and> lightingMap (instances ?s1 ! a) = sub_lm e subModel
      \<and> stride (instances ?s1 ! a) = length (buffer attrs)
      \<and> (\<forall>j<a. \<not> matches (sub_ib subModel) (sub_lm e subModel) (instances ?s1 ! j))"
  proof (cases "a < length (instances s)")
    case True
    note k = l(3) [OF True]
    have nm: "\<forall>j<a. \<not> matches (sub_ib subModel) (sub_lm e subModel) (instances s ! j)"
      using first_match_0(3) k by blast
    show ?thesis
      using True k nm by (simp add: merged_def assms(2) appended_fields matches_def)
  next
    case False
    then have eq: "a = length (instances s)" using l(2) by simp
    have "\<forall>g\<in>set (instances s). \<not> matches (sub_ib subModel) (sub_lm e subModel) g"
      using l(4) [OF eq] by (simp add: first_match_None)
    then have nm: "\<forall>j<a. \<not> matches (sub_ib subModel) (sub_lm e subModel) (instances s ! j)"
      using eq by simp
    show ?thesis
      using nm eq by (simp add: merged_def assms(2) new_group_def sub_ib_def nth_append)
  qed
  then show "indexBuffer (ia (instances ?s1 ! a)) = sub_ib subModel"
    "lightingMap (instances ?s1 ! a) = sub_lm e subModel"
    "stride (instances ?s1 ! a) = length (buffer attrs)"
    "\<forall>j<a. \<not> matches (sub_ib subModel) (sub_lm e subModel) (instances ?s1 ! j)"
    by simp_all
qed

lemma landed_then:
  assumes "state_inv s" and "landing e (sub_model x) (sub_attrs x) s = Some a"
  shows "\<exists>s2. merge_all e (x # mid) s = Inr s2 \<and> state_inv s2
     \<and> a < length (instances s2)
     \<and> indexBuffer (ia (instances s2 ! a)) = sub_ib (sub_model x)
     \<and> lightingMap (instances s2 ! a) = sub_lm e (sub_model x)
     \<and> stride (instances s2 ! a) = length (buffer (sub_attrs x))
     \<and> (\<forall>j<a. \<not> matches (sub_ib (sub_model x)) (sub_lm e (sub_model x)) (instances s2 ! j))"
proof -
  let ?s1 = "merged e (sub_model x) (sub_attrs x) (sub_passIdx x) s"
  note lk = landed_key [OF assms, of "sub_passIdx x"]
  have i1: "state_inv ?s1" using assms(1) by (rule merged_inv)
  obtain s2 where s2: "merge_all e mid ?s1 = Inr s2" "state_inv s2"
    "length (instances ?s1) \<le> length (instances s2)"
    and k: "\<forall>j<length (instances ?s1).
           ia (instances s2 ! j) = ia (instances ?s1 ! j)
           \<and> lightingMap (instances s2 ! j) = lightingMap (instances ?s1 ! j)
           \<and> stride (instances s2 ! j) = stride (instances ?s1 ! j)
           \<and> count (instances ?s1 ! j) \<le> count (instances s2 ! j)"
    using merge_all_keeps [OF i1, of e mid] by blast
  have m: "merge_all e (x # mid) s = Inr s2"
    using s2(1) by (simp add: merge_eq [OF assms(1)])
  have a2: "a < length (instances s2)" using lk(1) s2(3) by simp
  have "\<forall>j<a. \<not> matches (sub_ib (sub_model x)) (sub_lm e (sub_model x)) (instances s2 ! j)"
  proof (intro allI impI)
    fix j assume j: "j < a"
    then have j1: "j < length (instances ?s1)" using lk(1) by simp
    show "\<not> matches (sub_ib (sub_model x)) (sub_lm e (sub_model x)) (instances s2 ! j)"
      using not_matches_kept [OF lk(5) [rule_format, OF j], of "instances s2 ! j"]
        k [rule_format, OF j1] by simp
  qed
  then show ?thesis
    using m s2(2) a2 lk(2,3,4) k [rule_format, OF lk(1)] by auto
qed

lemma merge_all_overflow:
  assumes "state_inv s" and "first_match ib lm 0 (instances s) = None" and "0 < st"
    and "list_all (compatible e ib lm st) subs" and "length subs = 1025"
  shows "\<exists>s' g1 g2. merge_all e subs s = Inr s' \<and> state_inv s'
     \<and> instances s' = instances s @ [g1, g2]
     \<and> count g1 = 1024 \<and> capacity g1 = 1024 \<and> count g2 = 1
     \<and> indexBuffer (ia g1) = ib \<and> lightingMap g1 = lm \<and> stride g1 = st
     \<and> indexBuffer (ia g2) = ib \<and> lightingMap g2 = lm \<and> stride g2 = st"
proof -
  have "length subs = Suc 1024" using assms(5) by simp
  then obtain z front where split: "subs = front @ [z]" and lf: "length front = 1024"
    unfolding length_Suc_conv_rev by blast
  then obtain x xs where front: "front = x # xs" by (cases front) simp_all
  have cf: "list_all (compatible e ib lm st) (x # xs)" and cz: "compatible e ib lm st z"
    using assms(4) by (simp_all add: split front)
  have key: "sub_ib (sub_model z) = ib" "sub_lm e (sub_model z) = lm"
    "length (buffer (sub_attrs z)) = st"
    using cz by (simp_all add: compatible_def)
  have le: "length (x # xs) \<le> 1024" using lf front by simp
  obtain s1 g1 where s1: "merge_all e (x # xs) s = Inr s1" "state_inv s1"
    "instances s1 = instances s @ [g1]" "count g1 = length (x # xs)" "stride g1 = st"
    "indexBuffer (ia g1) = ib" "lightingMap g1 = lm"
    using merge_all_new [OF assms(1,2,3) cf le] by blast
  have c1: "count g1 = 1024" using s1(4) lf front by simp
  have "group_inv g1" using s1(2,3) by (simp add: state_inv_def)
  then have "count g1 \<le> capacity g1" "capacity g1 \<le> 1024"
    using cap_ok_bounds [of "capacity g1"] by (simp_all add: group_inv_def)
  then have cap1: "capacity g1 = 1024" using c1 by simp
  have "\<not> matches ib lm g1" using c1 by (simp add: matches_def MAX_CAPACITY_def)
  then have fm1: "first_match ib lm 0 (instances s1) = None"
    using assms(2) by (simp add: first_match_None s1(3))
  have l: "landing e (sub_model z) (sub_attrs z) s1 = Some (length (instances s1))"
    using fm1 assms(3) by (simp add: landing_def key)
  let ?s2 = "merged e (sub_model z) (sub_attrs z) (sub_passIdx z) s1"
  let ?g2 = "new_group e (sub_model z) (sub_attrs z) (sub_passIdx z) (created (device s1))"
  have i2: "instances ?s2 = instances s @ [g1, ?g2]"
    by (simp add: merged_def l s1(3))
  have inv2: "state_inv ?s2" using s1(2) by (rule merged_inv)
  have g2: "count ?g2 = 1" "indexBuffer (ia ?g2) = ib" "lightingMap ?g2 = lm" "stride ?g2 = st"
    using key by (simp_all add: new_group_def sub_ib_def)
  have fr1: "merge_all e front s = Inr s1" using s1(1) by (simp only: front)
  have "merge_all e subs s = Inr ?s2"
    by (simp only: split merge_all_append fr1 sum.case merge_all.simps merge_eq [OF s1(2)])
  then show ?thesis
    using inv2 i2 c1 cap1 g2 s1(5,6,7) by blast
qed

lemma ex_x_key:
  "sub_ib (sub_model ex_x) = Some 5" "sub_lm ex_env (sub_model ex_x) = None"
  "buffer (sub_attrs ex_x) = [1]" "compatible ex_env (Some 5) None 1 ex_x"
  by (simp_all add: ex_x_def ex_sub_def ex_subModel_def ex_attrs_def sub_ib_def sub_lm_def
      ex_env_def compatible_def)

lemma ex_x_all: "list_all (compatible ex_env (Some 5) None 1) (replicate n ex_x)"
  using ex_x_key(4) by (simp add: list_all_iff)

lemma new_InstancedBuffer_props:
  "state_inv (new_InstancedBuffer pass)" "instances (new_InstancedBuffer pass) = []"
  "first_match ib lm 0 (instances (new_InstancedBuffer pass)) = None"
  by (simp_all add: new_InstancedBuffer_def state_inv_def)

lemma ex_big_state_inv: "n \<le> 1024 \<Longrightarrow> state_inv (ex_big_state n)"
  by (simp add: state_inv_def ex_big_state_def group_inv_def ex_group_def cap_ok_cases)

lemma ex_big_landing:
  "n < 1024 \<Longrightarrow>
   landing ex_env (ex_subModel (Some 5) None h) (ex_attrs [b1, b2]) (ex_big_state n) = Some 0"
  by (simp add: landing_def ex_attrs_def ex_big_state_def ex_group_def matches_def sub_ib_def
      sub_lm_def ex_subModel_def ex_env_def MAX_CAPACITY_def)

lemma merged_payloads:
  assumes "state_inv s"
  shows "map payloads (instances (merged e subModel attrs passIdx s)) =
     (case landing e subModel attrs s of
        None \<Rightarrow> map payloads (instances s)
      | Some k \<Rightarrow>
          if k < length (instances s)
          then (map payloads (instances s))[k := payloads (instances s ! k) @ [buffer attrs]]
          else map payloads (instances s) @ [[buffer attrs]])"
proof (cases "landing e subModel attrs s")
  case None
  then show ?thesis by (simp add: merged_def)
next
  case (Some k)
  note l = landing_Some [OF Some]
  show ?thesis
  proof (cases "k < length (instances s)")
    case True
    have gi: "group_inv (instances s ! k)" using assms True by (rule state_inv_nth)
    have lt: "count (instances s ! k) < MAX_CAPACITY" using l(3) [OF True] by (simp add: matches_def)
    have st: "stride (instances s ! k) = length (buffer attrs)" using l(3) [OF True] by simp
    show ?thesis
      using True by (simp add: merged_def Some map_update appended_payloads [OF gi lt st])
  next
    case False
    then show ?thesis by (simp add: merged_def Some new_group_payloads)
  qed
qed

lemma landing_partitioning:
  assumes "state_inv s"
  shows "(landing e (sub_model x) (sub_attrs x) s = Some a \<longrightarrow>
      (\<exists>s2. merge_all e (x # mid) s = Inr s2 \<and> state_inv s2 \<and> a < length (instances s2)
         \<and> (\<forall>b. landing e (sub_model y) (sub_attrs y) s2 = Some b
                 \<and> (sub_ib (sub_model x) \<noteq> sub_ib (sub_model y)
                      \<or> sub_lm e (sub_model x) \<noteq> sub_lm e (sub_model y)
                      \<or> length (payload x) \<noteq> length (payload y))
               \<longrightarrow> a \<noteq> b)
         \<and> (compatible e (sub_ib (sub_model x)) (sub_lm e (sub_model x)) (length (payload x)) y
              \<and> count (instances s2 ! a) < 1024
             \<longrightarrow> landing e (sub_model y) (sub_attrs y) s2 = Some a)
         \<and> (compatible e (sub_ib (sub_model x)) (sub_lm e (sub_model x)) (length (payload x)) y
              \<and> 1024 \<le> count (instances s2 ! a)
             \<longrightarrow> landing e (sub_model y) (sub_attrs y) s2 \<noteq> Some a
                 \<and> (landing e (sub_model y) (sub_attrs y) s2 = Some (length (instances s2))
                      \<longleftrightarrow> (\<forall>g\<in>set (instances s2).
                              \<not> matches (sub_ib (sub_model y)) (sub_lm e (sub_model y)) g)))))
    \<and> (first_match ib lm 0 (instances s) = None \<and> 0 < st
          \<and> list_all (compatible e ib lm st) subs \<and> length subs = 1025 \<longrightarrow>
        (\<exists>s' g1 g2. merge_all e subs s = Inr s' \<and> instances s' = instances s @ [g1, g2]
           \<and> count g1 = 1024 \<and> capacity g1 = 1024 \<and> count g2 = 1))"
proof (intro conjI impI)
  assume lx: "landing e (sub_model x) (sub_attrs x) s = Some a"
  let ?ib = "sub_ib (sub_model x)" and ?lm = "sub_lm e (sub_model x)"
  let ?ly = "landing e (sub_model y) (sub_attrs y)"
  have nex: "length (buffer (sub_attrs x)) \<noteq> 0" using landing_Some(1) [OF lx] .
  obtain s2 where s2: "merge_all e (x # mid) s = Inr s2" "state_inv s2"
    "a < length (instances s2)"
    "indexBuffer (ia (instances s2 ! a)) = ?ib"
    "lightingMap (instances s2 ! a) = ?lm"
    "stride (instances s2 ! a) = length (buffer (sub_attrs x))"
    "\<forall>j<a. \<not> matches ?ib ?lm (instances s2 ! j)"
    using landed_then [OF assms lx, of mid] by blast
  have A: "\<forall>b. ?ly s2 = Some b
                 \<and> (?ib \<noteq> sub_ib (sub_model y) \<or> ?lm \<noteq> sub_lm e (sub_model y)
                      \<or> length (payload x) \<noteq> length (payload y))
               \<longrightarrow> a \<noteq> b"
  proof (intro allI impI notI)
    fix b
    assume h: "?ly s2 = Some b
                 \<and> (?ib \<noteq> sub_ib (sub_model y) \<or> ?lm \<noteq> sub_lm e (sub_model y)
                      \<or> length (payload x) \<noteq> length (payload y))"
      and ab: "a = b"
    have "matches (sub_ib (sub_model y)) (sub_lm e (sub_model y)) (instances s2 ! a)
        \<and> stride (instances s2 ! a) = length (buffer (sub_attrs y))"
      using landing_Some(3) [of e "sub_model y" "sub_attrs y" s2 a] h ab s2(3) by simp
    then have "?ib = sub_ib (sub_model y) \<and> ?lm = sub_lm e (sub_model y)
        \<and> length (payload x) = length (payload y)"
      using s2(4,5,6) by (simp add: matches_def payload_def)
    with h show False by simp
  qed
  have B: "?ly s2 = Some a"
    if h: "compatible e ?ib ?lm (length (payload x)) y \<and> count (instances s2 ! a) < 1024"
  proof -
    have key: "sub_ib (sub_model y) = ?ib" "sub_lm e (sub_model y) = ?lm"
      "length (buffer (sub_attrs y)) = length (buffer (sub_attrs x))"
      using h by (simp_all add: compatible_def payload_def)
    have "matches ?ib ?lm (instances s2 ! a)"
      using h s2(4,5) by (simp add: matches_def MAX_CAPACITY_def)
    then have "first_match ?ib ?lm 0 (instances s2) = Some a"
      using s2(3,7) by (simp add: first_match_iff)
    then show ?thesis using nex s2(6) by (simp add: landing_def key)
  qed
  have C: "?ly s2 \<noteq> Some a
           \<and> (?ly s2 = Some (length (instances s2))
                \<longleftrightarrow> (\<forall>g\<in>set (instances s2).
                       \<not> matches (sub_ib (sub_model y)) (sub_lm e (sub_model y)) g))"
    if h: "compatible e ?ib ?lm (length (payload x)) y \<and> 1024 \<le> count (instances s2 ! a)"
  proof -
    have key: "sub_ib (sub_model y) = ?ib" "sub_lm e (sub_model y) = ?lm"
      "length (buffer (sub_attrs y)) = length (buffer (sub_attrs x))"
      using h by (simp_all add: compatible_def payload_def)
    have nm: "\<not> matches ?ib ?lm (instances s2 ! a)"
      using h by (simp add: matches_def MAX_CAPACITY_def)
    have 1: "?ly s2 \<noteq> Some a"
    proof
      assume "?ly s2 = Some a"
      then have "matches ?ib ?lm (instances s2 ! a)"
        using landing_Some(3) [of e "sub_model y" "sub_attrs y" s2 a] s2(3) by (simp add: key)
      with nm show False by simp
    qed
    have 2: "?ly s2 = Some (length (instances s2))
        \<longleftrightarrow> first_match ?ib ?lm 0 (instances s2) = None"
    proof
      assume "?ly s2 = Some (length (instances s2))"
      then show "first_match ?ib ?lm 0 (instances s2) = None"
        using landing_Some(4) [of e "sub_model y" "sub_attrs y" s2 "length (instances s2)"]
        by (simp add: key)
    next
      assume "first_match ?ib ?lm 0 (instances s2) = None"
      then show "?ly s2 = Some (length (instances s2))"
        using nex by (simp add: landing_def key)
    qed
    show ?thesis using 1 2 by (simp add: key first_match_None)
  qed
  show "\<exists>s2. merge_all e (x # mid) s = Inr s2 \<and> state_inv s2 \<and> a < length (instances s2)
         \<and> (\<forall>b. landing e (sub_model y) (sub_attrs y) s2 = Some b
                 \<and> (sub_ib (sub_model x) \<noteq> sub_ib (sub_model y)
                      \<or> sub_lm e (sub_model x) \<noteq> sub_lm e (sub_model y)
                      \<or> length (payload x) \<noteq> length (payload y))
               \<longrightarrow> a \<noteq> b)
         \<and> (compatible e (sub_ib (sub_model x)) (sub_lm e (sub_model x)) (length (payload x)) y
              \<and> count (instances s2 ! a) < 1024
             \<longrightarrow> landing e (sub_model y) (sub_attrs y) s2 = Some a)
         \<and> (compatible e (sub_ib (sub_model x)) (sub_lm e (sub_model x)) (length (payload x)) y
              \<and> 1024 \<le> count (instances s2 ! a)
             \<longrightarrow> landing e (sub_model y) (sub_attrs y) s2 \<noteq> Some a
                 \<and> (landing e (sub_model y) (sub_attrs y) s2 = Some (length (instances s2))
                      \<longleftrightarrow> (\<forall>g\<in>set (instances s2).
                              \<not> matches (sub_ib (sub_model y)) (sub_lm e (sub_model y)) g)))"
    using s2(1,2,3) A B C by blast
next
  assume h: "first_match ib lm 0 (instances s) = None \<and> 0 < st
          \<and> list_all (compatible e ib lm st) subs \<and> length subs = 1025"
  obtain s' g1 g2 where "merge_all e subs s = Inr s'" "instances s' = instances s @ [g1, g2]"
    "count g1 = 1024" "capacity g1 = 1024" "count g2 = 1"
    using merge_all_overflow [OF assms, of ib lm st e subs] h by auto
  then show "\<exists>s' g1 g2. merge_all e subs s = Inr s' \<and> instances s' = instances s @ [g1, g2]
           \<and> count g1 = 1024 \<and> capacity g1 = 1024 \<and> count g2 = 1"
    by (intro exI [of _ s'] exI [of _ g1] exI [of _ g2]) simp
qed

lemma reached_landing:
  assumes "state_inv s"
  shows "reached s (merged e subModel attrs passIdx s) k \<longleftrightarrow> landing e subModel attrs s = Some k"
proof
  assume l: "landing e subModel attrs s = Some k"
  note ml = merged_landed [OF assms l, of passIdx]
  note ls = landing_Some [OF l]
  show "reached s (merged e subModel attrs passIdx s) k"
    using ml(2,4,6) ls(2) by (auto simp: reached_def)
next
  let ?s' = "merged e subModel attrs passIdx s"
  assume r: "reached s ?s' k"
  show "landing e subModel attrs s = Some k"
  proof (cases "landing e subModel attrs s")
    case None
    then have "?s' = s" by (simp add: merged_def)
    with r show ?thesis by (auto simp: reached_def)
  next
    case (Some j)
    note ml = merged_landed [OF assms Some, of passIdx]
    note ls = landing_Some [OF Some]
    have "j = k"
    proof (rule ccontr)
      assume ne: "j \<noteq> k"
      show False
      proof (cases "k < length (instances s)")
        case True
        then have "instances ?s' ! k = instances s ! k" using ml(7) ne by simp
        with r True show False by (simp add: reached_def)
      next
        case False
        with r have k: "k = length (instances s)" "k < length (instances ?s')"
          by (simp_all add: reached_def)
        then have "\<not> j < length (instances s)" using ml(6) by (auto split: if_splits)
        then have "j = length (instances s)" using ls(2) by simp
        with k ne show False by simp
      qed
    qed
    with Some show ?thesis by simp
  qed
qed

lemma merged_grows_iff:
  assumes "state_inv s"
  shows "length (instances (merged e subModel attrs passIdx s)) = length (instances s) + 1
     \<longleftrightarrow> landing e subModel attrs s = Some (length (instances s))"
proof (cases "landing e subModel attrs s")
  case None
  then show ?thesis by (simp add: merged_def)
next
  case (Some j)
  note ml = merged_landed [OF assms Some, of passIdx]
  show ?thesis using ml(6) Some landing_Some(2) [OF Some] by (auto split: if_splits)
qed

section \<open>The properties\<close>

subsection \<open>C1\<close>

text \<open>
  C1. Let the groups of a well-formed aggregator be scanned for submissions with index
  buffer \<open>ib\<close>, texture \<open>lm\<close> and a payload of \<open>st > 0\<close> bytes, and let \<open>subs\<close> be a list of
  such submissions, merged in order. If the first group that matches is group \<open>k\<close>, with
  stride \<open>st\<close>, and its count after the merges is at most 1024, then \<open>merge_all\<close> raises no
  exception, the slots that the group held are unchanged and the next slots hold the payloads
  of \<open>subs\<close> in order. If no group matches and \<open>subs\<close> has between 1 and 1024 elements, then
  a group is created behind the others, and for all \<open>i\<close> below its count, which is the length
  of \<open>subs\<close>, slot \<open>i\<close> holds the payload of submission \<open>i\<close>. The capacity doubles on the way
  as often as the count requires. Whatever single submission is merged, compatible or not,
  the payloads held by the groups change only in that its payload is added behind those of
  the group it reaches.
\<close>

theorem merge_byte_placement:
  assumes "state_inv s" and "0 < st" and "list_all (compatible e ib lm st) subs"
  shows "(first_match ib lm 0 (instances s) = Some k \<and> stride (instances s ! k) = st
           \<and> count (instances s ! k) + length subs \<le> 1024 \<longrightarrow>
          (\<exists>s'. merge_all e subs s = Inr s'
             \<and> length (instances s') = length (instances s)
             \<and> count (instances s' ! k) = count (instances s ! k) + length subs
             \<and> stride (instances s' ! k) = st
             \<and> count (instances s' ! k) \<le> capacity (instances s' ! k)
             \<and> length (data (instances s' ! k)) = st * capacity (instances s' ! k)
             \<and> (\<forall>i<count (instances s ! k). slot (instances s' ! k) i = slot (instances s ! k) i)
             \<and> (\<forall>i<length subs.
                   slot (instances s' ! k) (count (instances s ! k) + i) = payload (subs ! i))))
     \<and> (first_match ib lm 0 (instances s) = None \<and> subs \<noteq> [] \<and> length subs \<le> 1024 \<longrightarrow>
          (\<exists>s' g. merge_all e subs s = Inr s' \<and> instances s' = instances s @ [g]
             \<and> count g = length subs \<and> stride g = st
             \<and> length (data g) = st * capacity g
             \<and> (\<forall>i<count g. slot g i = payload (subs ! i))))
     \<and> (\<exists>s'. merge e subModel attrs passIdx h s = Inr s'
           \<and> map payloads (instances s') =
               (case landing e subModel attrs s of
                  None \<Rightarrow> map payloads (instances s)
                | Some j \<Rightarrow>
                    if j < length (instances s)
                    then (map payloads (instances s))
                           [j := payloads (instances s ! j) @ [buffer attrs]]
                    else map payloads (instances s) @ [[buffer attrs]]))"
proof (intro conjI impI)
  assume a: "first_match ib lm 0 (instances s) = Some k \<and> stride (instances s ! k) = st
           \<and> count (instances s ! k) + length subs \<le> 1024"
  note fm = first_match_0 [OF a [THEN conjunct1]]
  have m: "indexBuffer (ia (instances s ! k)) = ib" "lightingMap (instances s ! k) = lm"
    using fm(2) by (simp_all add: matches_def)
  obtain s' where s': "merge_all e subs s = Inr s'"
    "length (instances s') = length (instances s)"
    "payloads (instances s' ! k) = payloads (instances s ! k) @ map payload subs"
    "count (instances s' ! k) = count (instances s ! k) + length subs"
    "stride (instances s' ! k) = st" and si: "state_inv s'"
    using merge_all_into [OF assms(1) fm(1,3) m _ assms(2,3)] a by blast
  have "group_inv (instances s' ! k)" using si fm(1) s'(2) by (simp add: state_inv_nth)
  then have gi: "count (instances s' ! k) \<le> capacity (instances s' ! k)"
    "length (data (instances s' ! k)) = st * capacity (instances s' ! k)"
    using s'(5) by (simp_all add: group_inv_def)
  have c: "count (instances s' ! k) = count (instances s ! k) + length (map payload subs)"
    using s'(4) by simp
  note sl = payloads_append_slots [OF s'(3) c]
  show "\<exists>s'. merge_all e subs s = Inr s'
             \<and> length (instances s') = length (instances s)
             \<and> count (instances s' ! k) = count (instances s ! k) + length subs
             \<and> stride (instances s' ! k) = st
             \<and> count (instances s' ! k) \<le> capacity (instances s' ! k)
             \<and> length (data (instances s' ! k)) = st * capacity (instances s' ! k)
             \<and> (\<forall>i<count (instances s ! k). slot (instances s' ! k) i = slot (instances s ! k) i)
             \<and> (\<forall>i<length subs.
                   slot (instances s' ! k) (count (instances s ! k) + i) = payload (subs ! i))"
    using s'(1,2,4,5) sl gi by simp
next
  assume a: "first_match ib lm 0 (instances s) = None \<and> subs \<noteq> [] \<and> length subs \<le> 1024"
  then obtain x xs where subs: "subs = x # xs" by (cases subs) simp_all
  obtain s' g where s': "merge_all e subs s = Inr s'" "state_inv s'"
    "instances s' = instances s @ [g]" "payloads g = map payload subs"
    "count g = length subs" "stride g = st"
    using merge_all_new [OF assms(1) a [THEN conjunct1] assms(2), of e x xs] assms(3) a
    unfolding subs by blast
  have "group_inv g" using s'(2,3) by (simp add: state_inv_def)
  then have len: "length (data g) = st * capacity g" using s'(6) by (simp add: group_inv_def)
  have "\<forall>i<count g. slot g i = payload (subs ! i)"
  proof (intro allI impI)
    fix i assume i: "i < count g"
    then have "slot g i = payloads g ! i" by (simp add: payloads_nth)
    also have "\<dots> = payload (subs ! i)" using i s'(5) by (simp add: s'(4))
    finally show "slot g i = payload (subs ! i)" .
  qed
  then show "\<exists>s' g. merge_all e subs s = Inr s' \<and> instances s' = instances s @ [g]
             \<and> count g = length subs \<and> stride g = st
             \<and> length (data g) = st * capacity g
             \<and> (\<forall>i<count g. slot g i = payload (subs ! i))"
    using s'(1,3,5,6) len by blast
next
  show "\<exists>s'. merge e subModel attrs passIdx h s = Inr s'
           \<and> map payloads (instances s') =
               (case landing e subModel attrs s of
                  None \<Rightarrow> map payloads (instances s)
                | Some j \<Rightarrow>
                    if j < length (instances s)
                    then (map payloads (instances s))
                           [j := payloads (instances s ! j) @ [buffer attrs]]
                    else map payloads (instances s) @ [[buffer attrs]])"
    using merged_payloads [OF assms(1)] by (simp add: merge_eq [OF assms(1)])
qed

theorem merge_byte_placement_witness:
  "state_inv (ex_state 32) \<and> (0::nat) < 2
   \<and> list_all (compatible ex_env (Some 5) None 2)
        [ex_sub (Some 5) None 3 [1, 2], ex_sub (Some 5) None 4 [3, 4]]
   \<and> first_match (Some 5) None 0 (instances (ex_state 32)) = Some 0
   \<and> stride (instances (ex_state 32) ! 0) = 2
   \<and> count (instances (ex_state 32) ! 0) = 32 \<and> capacity (instances (ex_state 32) ! 0) = 32
   \<and> (\<exists>s'. merge_all ex_env [ex_sub (Some 5) None 3 [1, 2], ex_sub (Some 5) None 4 [3, 4]]
               (ex_state 32) = Inr s'
          \<and> count (instances s' ! 0) = 34 \<and> 34 \<le> capacity (instances s' ! 0)
          \<and> slot (instances s' ! 0) 32 = [1, 2] \<and> slot (instances s' ! 0) 33 = [3, 4])
   \<and> state_inv (new_InstancedBuffer ex_pass)
   \<and> first_match (Some 5) None 0 (instances (new_InstancedBuffer ex_pass)) = None
   \<and> (\<exists>s' g. merge_all ex_env [ex_sub (Some 5) None 3 [1, 2], ex_sub (Some 5) None 4 [3, 4]]
               (new_InstancedBuffer ex_pass) = Inr s'
          \<and> instances s' = [g] \<and> count g = 2 \<and> slot g 0 = [1, 2] \<and> slot g 1 = [3, 4])"
proof -
  let ?subs = "[ex_sub (Some 5) None 3 [1, 2], ex_sub (Some 5) None 4 [3, 4]]"
  have a: "state_inv (ex_state 32)" by (simp add: ex_state_inv)
  have b: "(0::nat) < 2" by simp
  have c: "list_all (compatible ex_env (Some 5) None 2) ?subs"
    by (simp add: compatible_def ex_sub_def ex_subModel_def ex_attrs_def sub_ib_def sub_lm_def
        ex_env_def)
  have d: "first_match (Some 5) None 0 (instances (ex_state 32)) = Some 0"
    by (simp add: ex_state_def ex_group_def matches_def MAX_CAPACITY_def)
  have f: "stride (instances (ex_state 32) ! 0) = 2" "count (instances (ex_state 32) ! 0) = 32"
    "capacity (instances (ex_state 32) ! 0) = 32" "length ?subs = 2"
    by (simp_all add: ex_state_def ex_group_def)
  have p: "payload (ex_sub (Some 5) None 3 [1, 2]) = [1, 2]"
    "payload (ex_sub (Some 5) None 4 [3, 4]) = [3, 4]"
    by (simp_all add: payload_def ex_sub_def ex_attrs_def)
  have a': "state_inv (new_InstancedBuffer ex_pass)"
    by (simp add: new_InstancedBuffer_def state_inv_def)
  have d': "first_match (Some 5) None 0 (instances (new_InstancedBuffer ex_pass)) = None"
    and i': "instances (new_InstancedBuffer ex_pass) = []"
    by (simp_all add: new_InstancedBuffer_def)
  note t = merge_byte_placement [OF a b c, of 0, THEN conjunct1, rule_format]
  note t' = merge_byte_placement [OF a' b c, of 0, THEN conjunct2, THEN conjunct1, rule_format]
  obtain s' where s': "merge_all ex_env ?subs (ex_state 32) = Inr s'"
    "count (instances s' ! 0) = count (instances (ex_state 32) ! 0) + length ?subs"
    "count (instances s' ! 0) \<le> capacity (instances s' ! 0)"
    "\<forall>i<length ?subs.
        slot (instances s' ! 0) (count (instances (ex_state 32) ! 0) + i) = payload (?subs ! i)"
    using t d f(1,2,4) by auto
  have s1: "slot (instances s' ! 0) 32 = [1, 2]"
    using s'(4) [rule_format, of 0] by (simp add: f p)
  have s2: "slot (instances s' ! 0) 33 = [3, 4]"
    using s'(4) [rule_format, of 1] by (simp add: f p)
  have first: "\<exists>s'. merge_all ex_env ?subs (ex_state 32) = Inr s'
          \<and> count (instances s' ! 0) = 34 \<and> 34 \<le> capacity (instances s' ! 0)
          \<and> slot (instances s' ! 0) 32 = [1, 2] \<and> slot (instances s' ! 0) 33 = [3, 4]"
    using s'(1,2,3) s1 s2 by (simp add: f)
  obtain s2 g where g: "merge_all ex_env ?subs (new_InstancedBuffer ex_pass) = Inr s2"
    "instances s2 = instances (new_InstancedBuffer ex_pass) @ [g]"
    "count g = length ?subs" "\<forall>i<count g. slot g i = payload (?subs ! i)"
    using t' d' by auto
  have g1: "slot g 0 = [1, 2]" using g(4) [rule_format, of 0] by (simp add: g(3) p)
  have g2: "slot g 1 = [3, 4]" using g(4) [rule_format, of 1] by (simp add: g(3) p)
  have second: "\<exists>s' g. merge_all ex_env ?subs (new_InstancedBuffer ex_pass) = Inr s'
          \<and> instances s' = [g] \<and> count g = 2 \<and> slot g 0 = [1, 2] \<and> slot g 1 = [3, 4]"
    using g(1,2,3) g1 g2 by (simp add: i')
  show ?thesis
    using a b c d f(1,2,3) first a' d' second by blast
qed

subsection \<open>C2\<close>

text \<open>
  C2. On an aggregator whose groups all have \<open>count \<le> capacity\<close>, a capacity \<open>32 * 2 ^ k\<close> of
  at most 1024 and \<open>length data = stride * capacity\<close>, each of \<open>merge\<close>, \<open>uploadBuffers\<close>,
  \<open>clear\<close> and \<open>destroy\<close> returns an aggregator with the same property (\<open>merge\<close> without an
  exception), and the groups that were there keep their strides; a new aggregator has
  the property.
\<close>

theorem operations_preserve_invariant:
  assumes "state_inv s"
  shows "(\<exists>s'. merge e subModel attrs passIdx h s = Inr s' \<and> state_inv s'
            \<and> take (length (instances s)) (map stride (instances s')) = map stride (instances s))
    \<and> state_inv (fst (uploadBuffers cmdBuff s))
    \<and> map stride (instances (fst (uploadBuffers cmdBuff s))) = map stride (instances s)
    \<and> state_inv (clear s) \<and> map stride (instances (clear s)) = map stride (instances s)
    \<and> state_inv (destroy s) \<and> instances (destroy s) = []
    \<and> state_inv (new_InstancedBuffer pass)
    \<and> (\<forall>t. state_inv t \<longleftrightarrow>
          (\<forall>g \<in> set (instances t).
             count g \<le> capacity g \<and> (\<exists>k. capacity g = 32 * 2 ^ k) \<and> capacity g \<le> 1024
             \<and> length (data g) = stride g * capacity g))"
proof -
  have m: "\<exists>s'. merge e subModel attrs passIdx h s = Inr s' \<and> state_inv s'
            \<and> take (length (instances s)) (map stride (instances s')) = map stride (instances s)"
    using assms by (simp add: merge_eq merged_inv merged_strides)
  have u: "map stride (instances (fst (uploadBuffers cmdBuff s))) = map stride (instances s)"
    by (simp add: uploadBuffers_eq upload_item_def comp_def)
  have c: "map stride (instances (clear s)) = map stride (instances s)"
    by (simp add: clear_eq comp_def)
  have d: "state_inv (destroy s) \<and> instances (destroy s) = []"
    by (simp add: destroy_eq state_inv_def)
  have n: "state_inv (new_InstancedBuffer pass)"
    by (simp add: new_InstancedBuffer_def state_inv_def)
  show ?thesis
    using m u c d n upload_inv [OF assms] clear_inv [OF assms] state_inv_iff by blast
qed

theorem operations_preserve_invariant_witness:
  "state_inv (ex_state 3)
   \<and> (\<exists>s'. merge ex_env (ex_subModel (Some 5) None 3) (ex_attrs [1, 2]) 0 None (ex_state 3) = Inr s'
          \<and> state_inv s'
          \<and> take (length (instances (ex_state 3))) (map stride (instances s')) =
              map stride (instances (ex_state 3)))
   \<and> state_inv (fst (uploadBuffers [] (ex_state 3)))
   \<and> state_inv (clear (ex_state 3))
   \<and> state_inv (destroy (ex_state 3))"
proof -
  have a: "state_inv (ex_state 3)" by (simp add: ex_state_inv)
  show ?thesis
    using a operations_preserve_invariant [OF a, of ex_env "ex_subModel (Some 5) None 3"
        "ex_attrs [1, 2]" 0 None "[]" ex_pass]
    by blast
qed

subsection \<open>C3\<close>

text \<open>
  C3, as amended. Into a well-formed aggregator, merge a submission \<open>x\<close>, then any
  submissions \<open>mid\<close>, then a submission \<open>y\<close>; no merge raises an exception. Suppose the
  merge of \<open>x\<close> gave an instance to group \<open>a\<close>. If the merge of \<open>y\<close> gives an instance
  to a group and \<open>y\<close> differs from \<open>x\<close> in index buffer, texture or payload size, that group
  is not \<open>a\<close>. If \<open>y\<close> agrees with \<open>x\<close> in all three and the count of \<open>a\<close> is below 1024,
  the merge of \<open>y\<close> gives its instance to \<open>a\<close>, with the payload in the next slot. If the
  count of \<open>a\<close> is 1024, the merge of \<open>y\<close> leaves group \<open>a\<close> as it is and adds a group
  exactly when no group has the index buffer and texture of \<open>y\<close> and a count below 1024.
  Whatever \<open>x\<close> was: when the first group with the index buffer and texture of \<open>y\<close> and a
  count below 1024 has another stride, the merge of \<open>y\<close> returns the aggregator as it was and
  no group gets an instance; and the merge of \<open>y\<close> adds a group exactly when its payload is
  not empty and no group matches. 1025 compatible submissions, merged into an aggregator
  none of whose groups matches them, add two groups (the only two, on a new aggregator): the
  first with count 1024 and capacity 1024, the second with count 1.
\<close>

theorem compatibility_partitioning:
  assumes "state_inv s"
  shows "(\<exists>s1 s2 s3.
        merge e (sub_model x) (sub_attrs x) (sub_passIdx x) (sub_implant x) s = Inr s1
      \<and> merge_all e (x # mid) s = Inr s2
      \<and> merge e (sub_model y) (sub_attrs y) (sub_passIdx y) (sub_implant y) s2 = Inr s3
      \<and> (reached s s1 a \<longrightarrow>
            a < length (instances s2)
          \<and> (\<forall>b. reached s2 s3 b
                  \<and> (sub_ib (sub_model x) \<noteq> sub_ib (sub_model y)
                       \<or> sub_lm e (sub_model x) \<noteq> sub_lm e (sub_model y)
                       \<or> length (payload x) \<noteq> length (payload y))
                \<longrightarrow> a \<noteq> b)
          \<and> (compatible e (sub_ib (sub_model x)) (sub_lm e (sub_model x)) (length (payload x)) y
               \<and> count (instances s2 ! a) < 1024
              \<longrightarrow> reached s2 s3 a
                  \<and> slot (instances s3 ! a) (count (instances s2 ! a)) = payload y)
          \<and> (compatible e (sub_ib (sub_model x)) (sub_lm e (sub_model x)) (length (payload x)) y
               \<and> 1024 \<le> count (instances s2 ! a)
              \<longrightarrow> \<not> reached s2 s3 a \<and> instances s3 ! a = instances s2 ! a
                  \<and> (length (instances s3) = length (instances s2) + 1
                       \<longleftrightarrow> (\<forall>g\<in>set (instances s2).
                               \<not> matches (sub_ib (sub_model y)) (sub_lm e (sub_model y)) g))))
      \<and> ((\<exists>k<length (instances s2).
              matches (sub_ib (sub_model y)) (sub_lm e (sub_model y)) (instances s2 ! k)
              \<and> (\<forall>j<k. \<not> matches (sub_ib (sub_model y)) (sub_lm e (sub_model y))
                            (instances s2 ! j))
              \<and> stride (instances s2 ! k) \<noteq> length (payload y))
           \<longrightarrow> s3 = s2 \<and> (\<forall>b. \<not> reached s2 s3 b))
      \<and> (length (instances s3) = length (instances s2) + 1
           \<longleftrightarrow> payload y \<noteq> []
               \<and> (\<forall>g\<in>set (instances s2).
                     \<not> matches (sub_ib (sub_model y)) (sub_lm e (sub_model y)) g)))
    \<and> (first_match ib lm 0 (instances s) = None \<and> 0 < st
          \<and> list_all (compatible e ib lm st) subs \<and> length subs = 1025 \<longrightarrow>
        (\<exists>s' g1 g2. merge_all e subs s = Inr s' \<and> instances s' = instances s @ [g1, g2]
           \<and> count g1 = 1024 \<and> capacity g1 = 1024 \<and> count g2 = 1))"
proof -
  let ?ib = "sub_ib (sub_model x)" and ?lm = "sub_lm e (sub_model x)"
  let ?iby = "sub_ib (sub_model y)" and ?lmy = "sub_lm e (sub_model y)"
  let ?ly = "landing e (sub_model y) (sub_attrs y)"
  let ?s1 = "merged e (sub_model x) (sub_attrs x) (sub_passIdx x) s"
  have m1: "merge e (sub_model x) (sub_attrs x) (sub_passIdx x) (sub_implant x) s = Inr ?s1"
    by (rule merge_eq [OF assms])
  have i1: "state_inv ?s1" using assms by (rule merged_inv)
  obtain s2 where s2: "merge_all e mid ?s1 = Inr s2" "state_inv s2"
    using merge_all_keeps [OF i1, of e mid] by blast
  have m2: "merge_all e (x # mid) s = Inr s2" using s2(1) by (simp add: m1)
  define s3 where "s3 = merged e (sub_model y) (sub_attrs y) (sub_passIdx y) s2"
  have m3: "merge e (sub_model y) (sub_attrs y) (sub_passIdx y) (sub_implant y) s2 = Inr s3"
    unfolding s3_def by (rule merge_eq [OF s2(2)])
  have rl: "reached s2 s3 b \<longleftrightarrow> ?ly s2 = Some b" for b
    unfolding s3_def by (rule reached_landing [OF s2(2)])
  have grow: "length (instances s3) = length (instances s2) + 1
      \<longleftrightarrow> ?ly s2 = Some (length (instances s2))"
    unfolding s3_def by (rule merged_grows_iff [OF s2(2)])
  have none: "?ly s2 = None \<Longrightarrow> s3 = s2" by (simp add: s3_def merged_def)
  have R: "a < length (instances s2)
          \<and> (\<forall>b. reached s2 s3 b
                  \<and> (?ib \<noteq> ?iby \<or> ?lm \<noteq> ?lmy \<or> length (payload x) \<noteq> length (payload y))
                \<longrightarrow> a \<noteq> b)
          \<and> (compatible e ?ib ?lm (length (payload x)) y \<and> count (instances s2 ! a) < 1024
              \<longrightarrow> reached s2 s3 a
                  \<and> slot (instances s3 ! a) (count (instances s2 ! a)) = payload y)
          \<and> (compatible e ?ib ?lm (length (payload x)) y \<and> 1024 \<le> count (instances s2 ! a)
              \<longrightarrow> \<not> reached s2 s3 a \<and> instances s3 ! a = instances s2 ! a
                  \<and> (length (instances s3) = length (instances s2) + 1
                       \<longleftrightarrow> (\<forall>g\<in>set (instances s2). \<not> matches ?iby ?lmy g)))"
    if r: "reached s ?s1 a"
  proof -
    have lx: "landing e (sub_model x) (sub_attrs x) s = Some a"
      using r reached_landing [OF assms] by simp
    obtain t2 where t2: "merge_all e (x # mid) s = Inr t2" "a < length (instances t2)"
      and A: "\<forall>b. ?ly t2 = Some b
                 \<and> (?ib \<noteq> ?iby \<or> ?lm \<noteq> ?lmy \<or> length (payload x) \<noteq> length (payload y))
               \<longrightarrow> a \<noteq> b"
      and B: "compatible e ?ib ?lm (length (payload x)) y \<and> count (instances t2 ! a) < 1024
             \<longrightarrow> ?ly t2 = Some a"
      and C: "compatible e ?ib ?lm (length (payload x)) y \<and> 1024 \<le> count (instances t2 ! a)
             \<longrightarrow> ?ly t2 \<noteq> Some a
                 \<and> (?ly t2 = Some (length (instances t2))
                      \<longleftrightarrow> (\<forall>g\<in>set (instances t2). \<not> matches ?iby ?lmy g))"
      using landing_partitioning [OF assms, of e x a mid y, THEN conjunct1, rule_format, OF lx]
      by (elim exE conjE) (rule that; assumption)
    have e2: "t2 = s2" using t2(1) m2 by simp
    note a2 = t2(2) [unfolded e2]
    have A': "\<forall>b. reached s2 s3 b
                  \<and> (?ib \<noteq> ?iby \<or> ?lm \<noteq> ?lmy \<or> length (payload x) \<noteq> length (payload y))
                \<longrightarrow> a \<noteq> b"
      using A unfolding e2 rl .
    have B': "reached s2 s3 a \<and> slot (instances s3 ! a) (count (instances s2 ! a)) = payload y"
      if h: "compatible e ?ib ?lm (length (payload x)) y \<and> count (instances s2 ! a) < 1024"
    proof -
      have l: "?ly s2 = Some a" using B h unfolding e2 by simp
      have "slot (instances s3 ! a) (count (instances s2 ! a)) = buffer (sub_attrs y)"
        using merged_landed(5) [OF s2(2) l, of "sub_passIdx y"] a2 by (simp add: s3_def)
      then show ?thesis using l by (simp add: rl payload_def)
    qed
    have C': "\<not> reached s2 s3 a \<and> instances s3 ! a = instances s2 ! a
                  \<and> (length (instances s3) = length (instances s2) + 1
                       \<longleftrightarrow> (\<forall>g\<in>set (instances s2). \<not> matches ?iby ?lmy g))"
      if h: "compatible e ?ib ?lm (length (payload x)) y \<and> 1024 \<le> count (instances s2 ! a)"
    proof -
      have c: "?ly s2 \<noteq> Some a"
        "?ly s2 = Some (length (instances s2))
           \<longleftrightarrow> (\<forall>g\<in>set (instances s2). \<not> matches ?iby ?lmy g)"
        using C h unfolding e2 by simp_all
      have same: "instances s3 ! a = instances s2 ! a"
      proof (cases "?ly s2")
        case None
        then show ?thesis using none by simp
      next
        case (Some b)
        then have "b \<noteq> a" using c(1) by simp
        then show ?thesis
          using merged_landed(7) [OF s2(2) Some, of "sub_passIdx y"] a2 by (simp add: s3_def)
      qed
      show ?thesis using c same grow by (simp add: rl)
    qed
    show ?thesis using a2 A' B' C' by blast
  qed
  have D: "s3 = s2 \<and> (\<forall>b. \<not> reached s2 s3 b)"
    if h: "\<exists>k<length (instances s2).
              matches ?iby ?lmy (instances s2 ! k)
              \<and> (\<forall>j<k. \<not> matches ?iby ?lmy (instances s2 ! j))
              \<and> stride (instances s2 ! k) \<noteq> length (payload y)"
  proof -
    have l: "?ly s2 = None"
      using h unfolding landing_None_iff payload_def by blast
    have nr: "\<forall>b. \<not> reached s2 s3 b" by (simp add: rl l)
    show ?thesis using none [OF l] nr by (rule conjI)
  qed
  have G: "length (instances s3) = length (instances s2) + 1
           \<longleftrightarrow> payload y \<noteq> [] \<and> (\<forall>g\<in>set (instances s2). \<not> matches ?iby ?lmy g)"
  proof -
    have "?ly s2 = Some (length (instances s2))
        \<longleftrightarrow> payload y \<noteq> [] \<and> first_match ?iby ?lmy 0 (instances s2) = None"
    proof (cases "first_match ?iby ?lmy 0 (instances s2)")
      case None
      then show ?thesis by (simp add: landing_def payload_def)
    next
      case (Some k)
      then have "k < length (instances s2)" by (rule first_match_0(1))
      then show ?thesis using Some by (auto simp: landing_def payload_def)
    qed
    then show ?thesis using grow by (simp add: first_match_None)
  qed
  have first: "\<exists>s1 s2 s3.
        merge e (sub_model x) (sub_attrs x) (sub_passIdx x) (sub_implant x) s = Inr s1
      \<and> merge_all e (x # mid) s = Inr s2
      \<and> merge e (sub_model y) (sub_attrs y) (sub_passIdx y) (sub_implant y) s2 = Inr s3
      \<and> (reached s s1 a \<longrightarrow>
            a < length (instances s2)
          \<and> (\<forall>b. reached s2 s3 b
                  \<and> (?ib \<noteq> ?iby \<or> ?lm \<noteq> ?lmy \<or> length (payload x) \<noteq> length (payload y))
                \<longrightarrow> a \<noteq> b)
          \<and> (compatible e ?ib ?lm (length (payload x)) y \<and> count (instances s2 ! a) < 1024
              \<longrightarrow> reached s2 s3 a
                  \<and> slot (instances s3 ! a) (count (instances s2 ! a)) = payload y)
          \<and> (compatible e ?ib ?lm (length (payload x)) y \<and> 1024 \<le> count (instances s2 ! a)
              \<longrightarrow> \<not> reached s2 s3 a \<and> instances s3 ! a = instances s2 ! a
                  \<and> (length (instances s3) = length (instances s2) + 1
                       \<longleftrightarrow> (\<forall>g\<in>set (instances s2). \<not> matches ?iby ?lmy g))))
      \<and> ((\<exists>k<length (instances s2).
              matches ?iby ?lmy (instances s2 ! k)
              \<and> (\<forall>j<k. \<not> matches ?iby ?lmy (instances s2 ! j))
              \<and> stride (instances s2 ! k) \<noteq> length (payload y))
           \<longrightarrow> s3 = s2 \<and> (\<forall>b. \<not> reached s2 s3 b))
      \<and> (length (instances s3) = length (instances s2) + 1
           \<longleftrightarrow> payload y \<noteq> [] \<and> (\<forall>g\<in>set (instances s2). \<not> matches ?iby ?lmy g))"
    apply (rule exI [of _ ?s1])
    apply (rule exI [of _ s2])
    apply (rule exI [of _ s3])
    apply (intro conjI)
         apply (rule m1)
        apply (rule m2)
       apply (rule m3)
      apply (rule impI, erule R)
     apply (rule impI, erule D)
    apply (rule G)
    done
  have second: "first_match ib lm 0 (instances s) = None \<and> 0 < st
          \<and> list_all (compatible e ib lm st) subs \<and> length subs = 1025 \<longrightarrow>
        (\<exists>s' g1 g2. merge_all e subs s = Inr s' \<and> instances s' = instances s @ [g1, g2]
           \<and> count g1 = 1024 \<and> capacity g1 = 1024 \<and> count g2 = 1)"
    by (rule landing_partitioning [OF assms, THEN conjunct2])
  from first second show ?thesis by (rule conjI)
qed

text \<open>
  C3, the claim as it stands fails, in two ways. A submission with the index buffer and
  texture of a group that has room, and with another payload size, is dropped: after it
  the aggregator is as it was after the first submission, with one group of one instance.
  And in a second frame, after \<open>clear\<close>, the first group is filled up to 1024 again; the
  next compatible submission goes to the second group, which the first frame left behind,
  and no group is created.
\<close>

theorem compatibility_partitioning_counterexample:
  "merge_all ex_env [ex_sub (Some 5) None 3 [1, 2]] (new_InstancedBuffer ex_pass) = Inr ex_one
   \<and> merge_all ex_env [ex_sub (Some 5) None 3 [1, 2], ex_sub (Some 5) None 3 [7, 8, 9]]
         (new_InstancedBuffer ex_pass) = Inr ex_one
   \<and> length (instances ex_one) = 1 \<and> count (instances ex_one ! 0) = 1
   \<and> merge_all ex_env (replicate 1025 ex_x) (new_InstancedBuffer ex_pass) = Inr ex_frame1
   \<and> merge_all ex_env (replicate 1024 ex_x) (clear ex_frame1) = Inr ex_refilled
   \<and> length (instances ex_refilled) = 2
   \<and> count (instances ex_refilled ! 0) = 1024
   \<and> compatible ex_env (indexBuffer (ia (instances ex_refilled ! 0)))
        (lightingMap (instances ex_refilled ! 0)) (stride (instances ex_refilled ! 0)) ex_x
   \<and> merge ex_env (sub_model ex_x) (sub_attrs ex_x) 0 None ex_refilled = Inr ex_overflowed
   \<and> length (instances ex_overflowed) = 2
   \<and> count (instances ex_overflowed ! 0) = 1024
   \<and> count (instances ex_overflowed ! 1) = 1"
proof -
  let ?f = "new_InstancedBuffer ex_pass"
  note nf = new_InstancedBuffer_props [where pass = ex_pass]
  have l1025: "length (replicate 1025 ex_x) = 1025" by simp
  obtain s1 g1 g2 where s1: "merge_all ex_env (replicate 1025 ex_x) ?f = Inr s1" "state_inv s1"
    "instances s1 = instances ?f @ [g1, g2]"
    and k1: "indexBuffer (ia g1) = Some 5" "lightingMap g1 = None" "stride g1 = 1"
    and k2: "indexBuffer (ia g2) = Some 5" "lightingMap g2 = None" "stride g2 = 1"
    using merge_all_overflow [OF nf(1) nf(3) zero_less_one ex_x_all l1025] by blast
  have f1: "ex_frame1 = s1" by (simp add: ex_frame1_def s1(1))
  let ?c = "clear s1"
  have ic: "instances ?c = [g1\<lparr>count := 0\<rparr>, g2\<lparr>count := 0\<rparr>]"
    by (simp add: clear_eq s1(3) nf(2))
  have invc: "state_inv ?c" using s1(2) by (rule clear_inv)
  have p: "0 < length (instances ?c)" "\<forall>j<0. \<not> matches (Some 5) None (instances ?c ! j)"
    "indexBuffer (ia (instances ?c ! 0)) = Some 5" "lightingMap (instances ?c ! 0) = None"
    "stride (instances ?c ! 0) = 1"
    "count (instances ?c ! 0) + length (replicate 1024 ex_x) \<le> 1024"
    by (simp_all add: ic k1)
  obtain s3 where s3: "merge_all ex_env (replicate 1024 ex_x) ?c = Inr s3" "state_inv s3"
    "length (instances s3) = length (instances ?c)"
    "\<forall>j<length (instances ?c). j \<noteq> 0 \<longrightarrow> instances s3 ! j = instances ?c ! j"
    "count (instances s3 ! 0) = count (instances ?c ! 0) + length (replicate 1024 ex_x)"
    "stride (instances s3 ! 0) = 1"
    "ia (instances s3 ! 0) = ia (instances ?c ! 0)"
    "lightingMap (instances s3 ! 0) = None"
    using merge_all_into [OF invc p(1,2,3,4,5) zero_less_one ex_x_all p(6)] by blast
  have r: "ex_refilled = s3" by (simp add: ex_refilled_def f1 s3(1))
  have len3: "length (instances s3) = 2" using s3(3) by (simp add: ic)
  have c0: "count (instances s3 ! 0) = 1024" using s3(5) by (simp add: ic)
  have g1': "instances s3 ! Suc 0 = g2\<lparr>count := 0\<rparr>" using s3(4) by (simp add: ic)
  have key0: "compatible ex_env (indexBuffer (ia (instances s3 ! 0)))
        (lightingMap (instances s3 ! 0)) (stride (instances s3 ! 0)) ex_x"
    using ex_x_key(4) by (simp add: s3(6,7,8) ic k1)
  have m0: "\<forall>j<1. \<not> matches (Some 5) None (instances s3 ! j)"
    using c0 by (simp add: matches_def MAX_CAPACITY_def)
  have m1: "matches (Some 5) None (instances s3 ! 1)"
    by (simp add: g1' matches_def MAX_CAPACITY_def k2)
  have fm3: "first_match (Some 5) None 0 (instances s3) = Some 1"
    using m0 m1 len3 by (simp add: first_match_iff)
  have l: "landing ex_env (sub_model ex_x) (sub_attrs ex_x) s3 = Some 1"
    by (simp add: landing_def ex_x_key fm3 g1' k2)
  note ml = merged_landed [OF s3(2) l, of 0]
  have mo: "merge ex_env (sub_model ex_x) (sub_attrs ex_x) 0 None s3 =
      Inr (merged ex_env (sub_model ex_x) (sub_attrs ex_x) 0 s3)"
    by (rule merge_eq [OF s3(2)])
  have o: "ex_overflowed = merged ex_env (sub_model ex_x) (sub_attrs ex_x) 0 s3"
    by (simp add: ex_overflowed_def r mo)
  have lo: "length (instances ex_overflowed) = 2" using ml(6) len3 by (simp add: o)
  have c1: "count (instances ex_overflowed ! 1) = 1" using ml(4) len3 by (simp add: o g1')
  have c0': "count (instances ex_overflowed ! 0) = 1024"
    using ml(7) [rule_format, of 0] len3 c0 by (simp add: o)
  have d0: "merge ex_env (ex_subModel (Some 5) None 3) (ex_attrs [1, 2]) 0 None
      (new_InstancedBuffer ex_pass) = Inr ex_one"
    by (simp add: merge_def merge_loop.simps merge_create_def push_attributes.simps u8_set_def
        createBuffer_def createInputAssembler_def new_InstancedBuffer_def ex_pass_def ex_env_def
        ex_subModel_def ex_attrs_def ex_one_def INITIAL_CAPACITY_def Let_def)
  have d1: "merge_all ex_env [ex_sub (Some 5) None 3 [1, 2]] (new_InstancedBuffer ex_pass)
      = Inr ex_one"
    by (simp add: ex_sub_def d0)
  have d2: "merge ex_env (ex_subModel (Some 5) None 3) (ex_attrs [7, 8, 9]) 0 None ex_one
      = Inr ex_one"
    by (simp add: merge_def merge_loop.simps ex_env_def ex_subModel_def ex_attrs_def ex_one_def
        MAX_CAPACITY_def Let_def)
  have d3: "merge_all ex_env [ex_sub (Some 5) None 3 [1, 2], ex_sub (Some 5) None 3 [7, 8, 9]]
         (new_InstancedBuffer ex_pass) = Inr ex_one"
    by (simp add: ex_sub_def d0 d2)
  have d4: "length (instances ex_one) = 1 \<and> count (instances ex_one ! 0) = 1"
    by (simp add: ex_one_def)
  show ?thesis
    using d1 d3 d4 s1(1) s3(1) len3 c0 key0 mo lo c0' c1 unfolding f1 r o by simp
qed

theorem compatibility_partitioning_witness:
  "state_inv (ex_state 3)
   \<and> (\<exists>s1 s2 s3.
          merge ex_env (ex_subModel (Some 5) None 3) (ex_attrs [1, 2]) 0 None (ex_state 3) = Inr s1
        \<and> merge_all ex_env [ex_sub (Some 5) None 3 [1, 2]] (ex_state 3) = Inr s2
        \<and> merge ex_env (ex_subModel (Some 5) None 4) (ex_attrs [3, 4]) 0 None s2 = Inr s3
        \<and> reached (ex_state 3) s1 0
        \<and> compatible ex_env (Some 5) None 2 (ex_sub (Some 5) None 4 [3, 4])
        \<and> count (instances s2 ! 0) < 1024
        \<and> reached s2 s3 0 \<and> slot (instances s3 ! 0) 4 = [3, 4])
   \<and> (\<exists>s2 s3.
          merge_all ex_env [ex_sub (Some 5) None 3 [1, 2]] (ex_state 3) = Inr s2
        \<and> merge ex_env (ex_subModel (Some 6) None 4) (ex_attrs [3, 4]) 0 None s2 = Inr s3
        \<and> reached s2 s3 1 \<and> length (instances s3) = length (instances s2) + 1)
   \<and> (\<exists>s2 s3.
          merge_all ex_env [ex_sub (Some 5) None 3 [1, 2]] (ex_state 3) = Inr s2
        \<and> merge ex_env (ex_subModel (Some 5) None 4) (ex_attrs [7, 8, 9]) 0 None s2 = Inr s3
        \<and> matches (Some 5) None (instances s2 ! 0) \<and> stride (instances s2 ! 0) = 2
        \<and> s3 = s2)
   \<and> state_inv (ex_big_state 1023)
   \<and> (\<exists>s1 s2 s3.
          merge ex_env (ex_subModel (Some 5) None 3) (ex_attrs [1, 2]) 0 None (ex_big_state 1023)
            = Inr s1
        \<and> merge_all ex_env [ex_sub (Some 5) None 3 [1, 2]] (ex_big_state 1023) = Inr s2
        \<and> merge ex_env (ex_subModel (Some 5) None 4) (ex_attrs [3, 4]) 0 None s2 = Inr s3
        \<and> reached (ex_big_state 1023) s1 0 \<and> 1024 \<le> count (instances s2 ! 0)
        \<and> \<not> reached s2 s3 0 \<and> length (instances s3) = length (instances s2) + 1)
   \<and> state_inv (new_InstancedBuffer ex_pass)
   \<and> list_all (compatible ex_env (Some 5) None 1) (replicate 1025 ex_x)
   \<and> (\<exists>s' g1 g2. merge_all ex_env (replicate 1025 ex_x) (new_InstancedBuffer ex_pass) = Inr s'
          \<and> instances s' = [g1, g2] \<and> count g1 = 1024 \<and> capacity g1 = 1024 \<and> count g2 = 1)"
proof -
  let ?x = "ex_sub (Some 5) None 3 [1, 2]"
  let ?y1 = "ex_sub (Some 5) None 4 [3, 4]"
  let ?y2 = "ex_sub (Some 6) None 4 [3, 4]"
  let ?y3 = "ex_sub (Some 5) None 4 [7, 8, 9]"
  have sx: "sub_model ?x = ex_subModel (Some 5) None 3" "sub_attrs ?x = ex_attrs [1, 2]"
    "sub_passIdx ?x = 0" "sub_implant ?x = None"
    "sub_ib (sub_model ?x) = Some 5" "sub_lm ex_env (sub_model ?x) = None"
    "payload ?x = [1, 2]"
    by (simp_all add: ex_sub_def ex_subModel_def ex_attrs_def sub_ib_def sub_lm_def ex_env_def
        payload_def)
  have sy: "sub_model (ex_sub ib lm h bs) = ex_subModel ib lm h"
    "sub_attrs (ex_sub ib lm h bs) = ex_attrs bs"
    "sub_passIdx (ex_sub ib lm h bs) = 0" "sub_implant (ex_sub ib lm h bs) = None"
    "sub_ib (sub_model (ex_sub ib lm h bs)) = ib"
    "sub_lm ex_env (sub_model (ex_sub ib lm h bs)) = lm"
    "payload (ex_sub ib lm h bs) = bs"
    "sub_ib (ex_subModel ib lm h) = ib" "sub_lm ex_env (ex_subModel ib lm h) = lm"
    "buffer (ex_attrs bs) = bs" for ib lm h bs
    by (simp_all add: ex_sub_def ex_subModel_def ex_attrs_def sub_ib_def sub_lm_def ex_env_def
        payload_def)
  have a: "state_inv (ex_state 3)" by (simp add: ex_state_inv)
  have lx: "landing ex_env (ex_subModel (Some 5) None 3) (ex_attrs [1, 2]) (ex_state 3) = Some 0"
    by (simp add: ex_landing)
  have cy: "compatible ex_env (Some 5) None 2 ?y1"
    by (simp add: compatible_def sy ex_attrs_def)
  define S where "S = merged ex_env (ex_subModel (Some 5) None 3) (ex_attrs [1, 2]) 0 (ex_state 3)"
  have m1: "merge ex_env (ex_subModel (Some 5) None 3) (ex_attrs [1, 2]) 0 None (ex_state 3) = Inr S"
    unfolding S_def by (rule merge_eq [OF a])
  have ms: "merge_all ex_env [?x] (ex_state 3) = Inr S" by (simp add: sy m1)
  have rS: "reached (ex_state 3) S 0"
    unfolding S_def reached_landing [OF a] by (rule lx)
  have iS: "instances S =
      [appended (sub_hS ex_env (ex_subModel (Some 5) None 3) 0)
         (sub_hD ex_env (ex_subModel (Some 5) None 3)) (buffer (ex_attrs [1, 2])) (ex_group 3)]"
    unfolding S_def by (simp add: merged_def lx) (simp add: ex_state_def)
  have cS: "count (instances S ! 0) = 4" "stride (instances S ! 0) = 2"
    "matches (Some 5) None (instances S ! 0)" "length (instances S) = 1"
    by (simp_all add: iS appended_fields ex_group_def matches_def MAX_CAPACITY_def)
  have invS: "state_inv S" unfolding S_def using a by (rule merged_inv)

  obtain p1 p2 p3 where p: "merge ex_env (sub_model ?x) (sub_attrs ?x) (sub_passIdx ?x)
        (sub_implant ?x) (ex_state 3) = Inr p1"
      "merge_all ex_env (?x # []) (ex_state 3) = Inr p2"
      "merge ex_env (sub_model ?y1) (sub_attrs ?y1) (sub_passIdx ?y1) (sub_implant ?y1) p2 = Inr p3"
    and pR: "reached (ex_state 3) p1 0 \<longrightarrow>
            0 < length (instances p2)
          \<and> (\<forall>b. reached p2 p3 b
                  \<and> (sub_ib (sub_model ?x) \<noteq> sub_ib (sub_model ?y1)
                       \<or> sub_lm ex_env (sub_model ?x) \<noteq> sub_lm ex_env (sub_model ?y1)
                       \<or> length (payload ?x) \<noteq> length (payload ?y1))
                \<longrightarrow> 0 \<noteq> b)
          \<and> (compatible ex_env (sub_ib (sub_model ?x)) (sub_lm ex_env (sub_model ?x))
                 (length (payload ?x)) ?y1
               \<and> count (instances p2 ! 0) < 1024
              \<longrightarrow> reached p2 p3 0
                  \<and> slot (instances p3 ! 0) (count (instances p2 ! 0)) = payload ?y1)
          \<and> (compatible ex_env (sub_ib (sub_model ?x)) (sub_lm ex_env (sub_model ?x))
                 (length (payload ?x)) ?y1
               \<and> 1024 \<le> count (instances p2 ! 0)
              \<longrightarrow> \<not> reached p2 p3 0 \<and> instances p3 ! 0 = instances p2 ! 0
                  \<and> (length (instances p3) = length (instances p2) + 1
                       \<longleftrightarrow> (\<forall>g\<in>set (instances p2).
                               \<not> matches (sub_ib (sub_model ?y1))
                                   (sub_lm ex_env (sub_model ?y1)) g)))"
    using compatibility_partitioning [OF a, of ex_env ?x "[]" ?y1 0, THEN conjunct1]
    by (elim exE conjE) (rule that; assumption)
  have p1: "p1 = S" using p(1) m1 by (simp add: sy)
  have p2: "p2 = S" using p(2) ms by simp
  have B: "reached S p3 0 \<and> slot (instances p3 ! 0) 4 = [3, 4]"
    using pR rS cy [unfolded numeral_2_eq_2] cS(1) unfolding p1 p2 by (simp add: sx sy)
  have first: "\<exists>s1 s2 s3.
          merge ex_env (ex_subModel (Some 5) None 3) (ex_attrs [1, 2]) 0 None (ex_state 3) = Inr s1
        \<and> merge_all ex_env [?x] (ex_state 3) = Inr s2
        \<and> merge ex_env (ex_subModel (Some 5) None 4) (ex_attrs [3, 4]) 0 None s2 = Inr s3
        \<and> reached (ex_state 3) s1 0
        \<and> compatible ex_env (Some 5) None 2 ?y1
        \<and> count (instances s2 ! 0) < 1024
        \<and> reached s2 s3 0 \<and> slot (instances s3 ! 0) 4 = [3, 4]"
    apply (rule exI [of _ S])
    apply (rule exI [of _ S])
    apply (rule exI [of _ p3])
    using m1 ms p(3) rS cy cS(1) B unfolding p2 by (simp add: sy)

  obtain q2 q3 where q: "merge_all ex_env (?x # []) (ex_state 3) = Inr q2"
      "merge ex_env (sub_model ?y2) (sub_attrs ?y2) (sub_passIdx ?y2) (sub_implant ?y2) q2 = Inr q3"
    and qG: "length (instances q3) = length (instances q2) + 1
           \<longleftrightarrow> payload ?y2 \<noteq> []
               \<and> (\<forall>g\<in>set (instances q2).
                     \<not> matches (sub_ib (sub_model ?y2)) (sub_lm ex_env (sub_model ?y2)) g)"
    using compatibility_partitioning [OF a, of ex_env ?x "[]" ?y2 0, THEN conjunct1]
    by (elim exE conjE) (rule that; assumption)
  have q2: "q2 = S" using q(1) ms by simp
  have nm2: "\<forall>g\<in>set (instances S). \<not> matches (Some 6) None g"
    by (simp add: iS matches_def appended_fields ex_group_def)
  have g2: "length (instances q3) = length (instances S) + 1"
    using qG nm2 unfolding q2 by (simp add: sy)
  have l2: "landing ex_env (ex_subModel (Some 6) None 4) (ex_attrs [3, 4]) S = Some 1"
  proof -
    have fm: "first_match (Some 6) None 0 (instances S) = None"
      using nm2 by (simp add: first_match_None)
    show ?thesis by (simp add: landing_def sy fm cS(4))
  qed
  have q3: "q3 = merged ex_env (ex_subModel (Some 6) None 4) (ex_attrs [3, 4]) 0 S"
    using q(2) unfolding q2 by (simp add: sy merge_eq [OF invS])
  have r2: "reached S q3 1" unfolding q3 reached_landing [OF invS] by (rule l2)
  have second: "\<exists>s2 s3.
          merge_all ex_env [?x] (ex_state 3) = Inr s2
        \<and> merge ex_env (ex_subModel (Some 6) None 4) (ex_attrs [3, 4]) 0 None s2 = Inr s3
        \<and> reached s2 s3 1 \<and> length (instances s3) = length (instances s2) + 1"
    apply (rule exI [of _ S])
    apply (rule exI [of _ q3])
    using ms q(2) r2 g2 unfolding q2 by (simp add: sy)

  obtain d2 d3 where d: "merge_all ex_env (?x # []) (ex_state 3) = Inr d2"
      "merge ex_env (sub_model ?y3) (sub_attrs ?y3) (sub_passIdx ?y3) (sub_implant ?y3) d2 = Inr d3"
    and dD: "(\<exists>k<length (instances d2).
              matches (sub_ib (sub_model ?y3)) (sub_lm ex_env (sub_model ?y3)) (instances d2 ! k)
              \<and> (\<forall>j<k. \<not> matches (sub_ib (sub_model ?y3)) (sub_lm ex_env (sub_model ?y3))
                            (instances d2 ! j))
              \<and> stride (instances d2 ! k) \<noteq> length (payload ?y3))
           \<longrightarrow> d3 = d2 \<and> (\<forall>b. \<not> reached d2 d3 b)"
    using compatibility_partitioning [OF a, of ex_env ?x "[]" ?y3 0, THEN conjunct1]
    by (elim exE conjE) (rule that; assumption)
  have d2: "d2 = S" using d(1) ms by simp
  have hyp: "\<exists>k<length (instances S).
              matches (Some 5) None (instances S ! k)
              \<and> (\<forall>j<k. \<not> matches (Some 5) None (instances S ! j))
              \<and> stride (instances S ! k) \<noteq> length [7, 8, 9 :: byte]"
    using cS by (intro exI [of _ 0]) simp
  have d3: "d3 = S" using dD hyp unfolding d2 by (simp add: sy)
  have third: "\<exists>s2 s3.
          merge_all ex_env [?x] (ex_state 3) = Inr s2
        \<and> merge ex_env (ex_subModel (Some 5) None 4) (ex_attrs [7, 8, 9]) 0 None s2 = Inr s3
        \<and> matches (Some 5) None (instances s2 ! 0) \<and> stride (instances s2 ! 0) = 2
        \<and> s3 = s2"
    apply (rule exI [of _ S])
    apply (rule exI [of _ S])
    using ms d(2) cS unfolding d2 d3 by (simp add: sy)

  have a': "state_inv (ex_big_state 1023)" by (simp add: ex_big_state_inv)
  have lx': "landing ex_env (ex_subModel (Some 5) None 3) (ex_attrs [1, 2]) (ex_big_state 1023)
      = Some 0"
    by (simp add: ex_big_landing)
  define T where
    "T = merged ex_env (ex_subModel (Some 5) None 3) (ex_attrs [1, 2]) 0 (ex_big_state 1023)"
  have n1: "merge ex_env (ex_subModel (Some 5) None 3) (ex_attrs [1, 2]) 0 None
      (ex_big_state 1023) = Inr T"
    unfolding T_def by (rule merge_eq [OF a'])
  have mt: "merge_all ex_env [?x] (ex_big_state 1023) = Inr T" by (simp add: sy n1)
  have rT: "reached (ex_big_state 1023) T 0"
    unfolding T_def reached_landing [OF a'] by (rule lx')
  have iT: "instances T =
      [appended (sub_hS ex_env (ex_subModel (Some 5) None 3) 0)
         (sub_hD ex_env (ex_subModel (Some 5) None 3)) (buffer (ex_attrs [1, 2]))
         (instances (ex_big_state 1023) ! 0)]"
    unfolding T_def by (simp add: merged_def lx') (simp add: ex_big_state_def)
  have cT: "count (instances T ! 0) = 1024"
    by (simp add: iT appended_fields ex_big_state_def ex_group_def)
  have nmT: "\<forall>g\<in>set (instances T). \<not> matches (Some 5) None g"
    using cT by (simp add: iT matches_def MAX_CAPACITY_def)
  obtain t1 t2 t3 where t: "merge ex_env (sub_model ?x) (sub_attrs ?x) (sub_passIdx ?x)
        (sub_implant ?x) (ex_big_state 1023) = Inr t1"
      "merge_all ex_env (?x # []) (ex_big_state 1023) = Inr t2"
      "merge ex_env (sub_model ?y1) (sub_attrs ?y1) (sub_passIdx ?y1) (sub_implant ?y1) t2 = Inr t3"
    and tR: "reached (ex_big_state 1023) t1 0 \<longrightarrow>
            0 < length (instances t2)
          \<and> (\<forall>b. reached t2 t3 b
                  \<and> (sub_ib (sub_model ?x) \<noteq> sub_ib (sub_model ?y1)
                       \<or> sub_lm ex_env (sub_model ?x) \<noteq> sub_lm ex_env (sub_model ?y1)
                       \<or> length (payload ?x) \<noteq> length (payload ?y1))
                \<longrightarrow> 0 \<noteq> b)
          \<and> (compatible ex_env (sub_ib (sub_model ?x)) (sub_lm ex_env (sub_model ?x))
                 (length (payload ?x)) ?y1
               \<and> count (instances t2 ! 0) < 1024
              \<longrightarrow> reached t2 t3 0
                  \<and> slot (instances t3 ! 0) (count (instances t2 ! 0)) = payload ?y1)
          \<and> (compatible ex_env (sub_ib (sub_model ?x)) (sub_lm ex_env (sub_model ?x))
                 (length (payload ?x)) ?y1
               \<and> 1024 \<le> count (instances t2 ! 0)
              \<longrightarrow> \<not> reached t2 t3 0 \<and> instances t3 ! 0 = instances t2 ! 0
                  \<and> (length (instances t3) = length (instances t2) + 1
                       \<longleftrightarrow> (\<forall>g\<in>set (instances t2).
                               \<not> matches (sub_ib (sub_model ?y1))
                                   (sub_lm ex_env (sub_model ?y1)) g)))"
    using compatibility_partitioning [OF a', of ex_env ?x "[]" ?y1 0, THEN conjunct1]
    by (elim exE conjE) (rule that; assumption)
  have t1: "t1 = T" using t(1) n1 by (simp add: sy)
  have t2: "t2 = T" using t(2) mt by simp
  have C: "\<not> reached T t3 0 \<and> length (instances t3) = length (instances T) + 1"
    using tR rT cy [unfolded numeral_2_eq_2] cT nmT unfolding t1 t2 by (simp add: sx sy)
  have fourth: "\<exists>s1 s2 s3.
          merge ex_env (ex_subModel (Some 5) None 3) (ex_attrs [1, 2]) 0 None (ex_big_state 1023)
            = Inr s1
        \<and> merge_all ex_env [?x] (ex_big_state 1023) = Inr s2
        \<and> merge ex_env (ex_subModel (Some 5) None 4) (ex_attrs [3, 4]) 0 None s2 = Inr s3
        \<and> reached (ex_big_state 1023) s1 0 \<and> 1024 \<le> count (instances s2 ! 0)
        \<and> \<not> reached s2 s3 0 \<and> length (instances s3) = length (instances s2) + 1"
    apply (rule exI [of _ T])
    apply (rule exI [of _ T])
    apply (rule exI [of _ t3])
    using n1 mt t(3) rT cT C unfolding t2 by (simp add: sy)

  note nf = new_InstancedBuffer_props [where pass = ex_pass]
  have fifth: "\<exists>s' g1 g2. merge_all ex_env (replicate 1025 ex_x) (new_InstancedBuffer ex_pass) = Inr s'
          \<and> instances s' = [g1, g2] \<and> count g1 = 1024 \<and> capacity g1 = 1024 \<and> count g2 = 1"
  proof -
    have h: "first_match (Some 5) None 0 (instances (new_InstancedBuffer ex_pass)) = None
        \<and> (0::nat) < 1 \<and> list_all (compatible ex_env (Some 5) None 1) (replicate 1025 ex_x)
        \<and> length (replicate 1025 ex_x) = 1025"
      using nf(3) ex_x_all [of 1025] by simp
    show ?thesis
      using compatibility_partitioning [OF nf(1), where ib = "Some 5" and lm = None and st = 1
          and e = ex_env and subs = "replicate 1025 ex_x", THEN conjunct2, rule_format, OF h]
      by (simp add: nf(2))
  qed
  from a first second third a' fourth nf(1) ex_x_all [of 1025] fifth
  show ?thesis by - (intro conjI; assumption)
qed

subsection \<open>C4\<close>

text \<open>
  C4. On a well-formed aggregator \<open>merge\<close> raises no exception. It returns the aggregator
  unchanged exactly when the payload is empty or the first group, in scan order, that has
  the index buffer and the texture of the submission and a count below 1024 has another
  stride. In every other case one group, an existing one or a new last one, has one more
  instance, whose slot holds the payload; the slots written before, the other groups and
  their order are as before, and \<open>hasPendingModels\<close> is set.
\<close>

theorem merge_noop_exactly_when_dropped:
  assumes "state_inv s"
  shows "\<exists>s'. merge e subModel attrs passIdx h s = Inr s'
     \<and> (s' = s \<longleftrightarrow>
          length (buffer attrs) = 0
          \<or> (\<exists>k<length (instances s).
                matches (sub_ib subModel) (sub_lm e subModel) (instances s ! k)
                \<and> (\<forall>j<k. \<not> matches (sub_ib subModel) (sub_lm e subModel) (instances s ! j))
                \<and> stride (instances s ! k) \<noteq> length (buffer attrs)))
     \<and> (s' \<noteq> s \<longrightarrow>
          (\<exists>k. landing e subModel attrs s = Some k
             \<and> k < length (instances s') \<and> hasPendingModels s'
             \<and> count (instances s' ! k) =
                 (if k < length (instances s) then count (instances s ! k) + 1 else 1)
             \<and> slot (instances s' ! k)
                 (if k < length (instances s) then count (instances s ! k) else 0) = buffer attrs
             \<and> length (instances s') =
                 (if k < length (instances s) then length (instances s)
                  else length (instances s) + 1)
             \<and> (\<forall>j<length (instances s). j \<noteq> k \<longrightarrow> instances s' ! j = instances s ! j)
             \<and> (\<forall>i. k < length (instances s) \<and> i < count (instances s ! k) \<longrightarrow>
                   slot (instances s' ! k) i = slot (instances s ! k) i)))"
proof (cases "landing e subModel attrs s")
  case None
  then have m: "merged e subModel attrs passIdx s = s" by (simp add: merged_def)
  show ?thesis
    using None unfolding merge_eq [OF assms] m landing_None_iff by simp
next
  case (Some k)
  note ml = merged_landed [OF assms Some, of passIdx]
  have "\<not> (length (buffer attrs) = 0
          \<or> (\<exists>k<length (instances s).
                matches (sub_ib subModel) (sub_lm e subModel) (instances s ! k)
                \<and> (\<forall>j<k. \<not> matches (sub_ib subModel) (sub_lm e subModel) (instances s ! j))
                \<and> stride (instances s ! k) \<noteq> length (buffer attrs)))"
    using Some unfolding landing_None_iff [symmetric] by simp
  then show ?thesis
    unfolding merge_eq [OF assms] using ml Some by blast
qed

theorem merge_noop_exactly_when_dropped_witness:
  "state_inv (ex_state 3)
   \<and> merge ex_env (ex_subModel (Some 5) None 3) (ex_attrs [1, 2, 3]) 0 None (ex_state 3)
       = Inr (ex_state 3)
   \<and> (\<exists>s'. merge ex_env (ex_subModel (Some 5) None 3) (ex_attrs [1, 2]) 0 None (ex_state 3)
            = Inr s'
          \<and> s' \<noteq> ex_state 3 \<and> count (instances s' ! 0) = 4
          \<and> slot (instances s' ! 0) 3 = [1, 2])"
proof -
  let ?sm = "ex_subModel (Some 5) None 3"
  have a: "state_inv (ex_state 3)" by (simp add: ex_state_inv)
  have m: "matches (sub_ib ?sm) (sub_lm ex_env ?sm) (instances (ex_state 3) ! 0)"
    by (simp add: ex_state_def ex_group_def matches_def sub_ib_def sub_lm_def ex_subModel_def
        ex_env_def MAX_CAPACITY_def)
  have st: "stride (instances (ex_state 3) ! 0) = 2" "length (instances (ex_state 3)) = 1"
    "count (instances (ex_state 3) ! 0) = 3"
    by (simp_all add: ex_state_def ex_group_def)
  have b3: "length (buffer (ex_attrs [1, 2, 3])) = 3" and b2: "length (buffer (ex_attrs [1, 2])) = 2"
    and b2': "buffer (ex_attrs [1, 2]) = [1, 2]"
    by (simp_all add: ex_attrs_def)
  have d3: "length (buffer (ex_attrs [1, 2, 3])) = 0
          \<or> (\<exists>k<length (instances (ex_state 3)).
                matches (sub_ib ?sm) (sub_lm ex_env ?sm) (instances (ex_state 3) ! k)
                \<and> (\<forall>j<k. \<not> matches (sub_ib ?sm) (sub_lm ex_env ?sm) (instances (ex_state 3) ! j))
                \<and> stride (instances (ex_state 3) ! k) \<noteq> length (buffer (ex_attrs [1, 2, 3])))"
    using m st b3 by auto
  have d2: "\<not> (length (buffer (ex_attrs [1, 2])) = 0
          \<or> (\<exists>k<length (instances (ex_state 3)).
                matches (sub_ib ?sm) (sub_lm ex_env ?sm) (instances (ex_state 3) ! k)
                \<and> (\<forall>j<k. \<not> matches (sub_ib ?sm) (sub_lm ex_env ?sm) (instances (ex_state 3) ! j))
                \<and> stride (instances (ex_state 3) ! k) \<noteq> length (buffer (ex_attrs [1, 2]))))"
    using st b2 by auto
  have l: "landing ex_env ?sm (ex_attrs [1, 2]) (ex_state 3) = Some 0"
    by (simp add: ex_landing)
  have first: "merge ex_env ?sm (ex_attrs [1, 2, 3]) 0 None (ex_state 3) = Inr (ex_state 3)"
    using merge_noop_exactly_when_dropped [OF a, of ex_env ?sm "ex_attrs [1, 2, 3]" 0 None] d3
    by blast
  obtain s' where s': "merge ex_env ?sm (ex_attrs [1, 2]) 0 None (ex_state 3) = Inr s'"
    and ne: "s' \<noteq> ex_state 3"
    and ex: "\<exists>k. landing ex_env ?sm (ex_attrs [1, 2]) (ex_state 3) = Some k
             \<and> count (instances s' ! k) =
                 (if k < length (instances (ex_state 3)) then count (instances (ex_state 3) ! k) + 1
                  else 1)
             \<and> slot (instances s' ! k)
                 (if k < length (instances (ex_state 3)) then count (instances (ex_state 3) ! k)
                  else 0) = buffer (ex_attrs [1, 2])"
    using merge_noop_exactly_when_dropped [OF a, of ex_env ?sm "ex_attrs [1, 2]" 0 None] d2
    by blast
  from ex l have "count (instances s' ! 0) = 4 \<and> slot (instances s' ! 0) 3 = [1, 2]"
    using st b2' by auto
  then show ?thesis using a first s' ne by blast
qed

subsection \<open>C5\<close>

text \<open>
  C5. \<open>clear\<close> sets the count of every group to 0 and the flag \<open>hasPendingModels\<close> to false;
  the group list keeps its length and order, and every other field of every group (capacity,
  stride, data, GPU buffer, binding, handles) and of the aggregator stays as it was. An
  \<open>uploadBuffers\<close> right after \<open>clear\<close> records no buffer update and changes nothing.
\<close>

theorem clear_resets_counts_only:
  "clear s = s\<lparr>instances := map (\<lambda>g. g\<lparr>count := 0\<rparr>) (instances s), hasPendingModels := False\<rparr>
   \<and> map count (instances (clear s)) = replicate (length (instances s)) 0
   \<and> map capacity (instances (clear s)) = map capacity (instances s)
   \<and> map stride (instances (clear s)) = map stride (instances s)
   \<and> map data (instances (clear s)) = map data (instances s)
   \<and> map vb (instances (clear s)) = map vb (instances s)
   \<and> uploadBuffers cmdBuff (clear s) = (clear s, cmdBuff)"
proof -
  have f: "filter (\<lambda>g. count g \<noteq> 0) (map (\<lambda>g. g\<lparr>count := 0\<rparr>) gs) = []" for gs :: "IInstancedItem list"
    by (induction gs) simp_all
  have u: "upload_item (g\<lparr>count := 0\<rparr>) = g\<lparr>count := 0\<rparr>" for g
    by (simp add: upload_item_def)
  show ?thesis
    by (simp add: clear_eq uploadBuffers_eq f u comp_def map_replicate_const)
qed

subsection \<open>C6\<close>

text \<open>
  C6. \<open>uploadBuffers\<close> sets the instance count of the binding of every group whose count is
  not 0 to that count and leaves the other groups as they are; it records, in the order of
  the groups, one update per group whose count is not 0, from the whole \<open>data\<close> buffer of
  the group to the vertex buffer of the group, and nothing for a group whose count is 0.
\<close>

theorem uploadBuffers_records_nonempty_groups:
  "uploadBuffers cmdBuff s =
     (s\<lparr>instances :=
          map (\<lambda>g. if count g = 0 then g else g\<lparr>ia := (ia g)\<lparr>instanceCount := count g\<rparr>\<rparr>)
            (instances s)\<rparr>,
      cmdBuff @ map (\<lambda>g. (buf_id (vb g), data g)) (filter (\<lambda>g. count g \<noteq> 0) (instances s)))"
  by (simp add: uploadBuffers_eq upload_item_def [abs_def] upload_record_def [abs_def])

subsection \<open>C7\<close>

text \<open>
  C7. A merge that reaches a group, an existing one or the one it creates, leaves in that
  group the shader handle and the descriptor-set handle that the pool holds for the
  submission, whatever the group held before.
\<close>

theorem merge_last_writer_wins:
  assumes "state_inv s" and "landing e subModel attrs s = Some k"
  shows "\<exists>s'. merge e subModel attrs passIdx h s = Inr s' \<and> k < length (instances s')
           \<and> hShader (instances s' ! k) = pool e (handle subModel) (SHADER_0 e + passIdx)
           \<and> hDescriptorSet (instances s' ! k) = pool e (handle subModel) (DESCRIPTOR_SET e)"
proof (cases "k < length (instances s)")
  case True
  then show ?thesis
    using assms
    by (simp add: merge_eq merged_def appended_fields sub_hS_def sub_hD_def)
next
  case False
  then have "k = length (instances s)" using landing_Some(2) [OF assms(2)] by simp
  then show ?thesis
    using assms
    by (simp add: merge_eq merged_def new_group_def sub_hS_def sub_hD_def)
qed

theorem merge_last_writer_wins_witness:
  "state_inv (ex_state 3)
   \<and> landing ex_env (ex_subModel (Some 5) None 4) (ex_attrs [1, 2]) (ex_state 3) = Some 0
   \<and> hShader (instances (ex_state 3) ! 0) = 306
   \<and> (\<exists>s'. merge ex_env (ex_subModel (Some 5) None 4) (ex_attrs [1, 2]) 0 None (ex_state 3) = Inr s'
          \<and> hShader (instances s' ! 0) = 406 \<and> hDescriptorSet (instances s' ! 0) = 410)"
proof -
  have a: "state_inv (ex_state 3)" by (simp add: ex_state_inv)
  have b: "landing ex_env (ex_subModel (Some 5) None 4) (ex_attrs [1, 2]) (ex_state 3) = Some 0"
    by (simp add: landing_def ex_attrs_def ex_state_def ex_group_def matches_def sub_ib_def
      sub_lm_def ex_subModel_def ex_env_def MAX_CAPACITY_def)
  have c: "hShader (instances (ex_state 3) ! 0) = 306" by (simp add: ex_state_def ex_group_def)
  have p: "pool ex_env (handle (ex_subModel (Some 5) None 4)) (SHADER_0 ex_env + 0) = 406"
    "pool ex_env (handle (ex_subModel (Some 5) None 4)) (DESCRIPTOR_SET ex_env) = 410"
    by (simp_all add: ex_env_def ex_subModel_def)
  show ?thesis
    using a b c merge_last_writer_wins [OF a b, of 0 None] unfolding p by blast
qed

subsection \<open>C8\<close>

text \<open>
  C8. After \<open>destroy\<close> the group list is empty and the device has received, for every group
  in order, the release of its vertex buffer and of its binding. A merge of a submission
  with a payload into the destroyed aggregator creates one group, with count 1 and
  capacity 32, and differs from the same merge into a new aggregator of the same pass and
  device only in the dynamic offsets that the destroyed aggregator still holds.
\<close>

theorem destroy_then_merge_starts_afresh:
  "instances (destroy s) = []
   \<and> released (device (destroy s)) =
       released (device s) @
         concat (map (\<lambda>g. [Buffer (buf_id (vb g)), InputAssembler (ia_id (ia g))]) (instances s))
   \<and> (buffer attrs \<noteq> [] \<longrightarrow>
        (\<exists>g s1 s2. merge e subModel attrs passIdx h (destroy s) = Inr s1
           \<and> merge e subModel attrs passIdx h
                (new_InstancedBuffer \<lparr>pass_device = device (destroy s), pass_handle = hPass s\<rparr>)
               = Inr s2
           \<and> instances s1 = [g] \<and> count g = 1 \<and> capacity g = 32
           \<and> hasPendingModels s1
           \<and> s1 = s2\<lparr>dynamicOffsets := dynamicOffsets s\<rparr>))"
proof -
  let ?f = "new_InstancedBuffer \<lparr>pass_device = device (destroy s), pass_handle = hPass s\<rparr>"
  have d: "state_inv (destroy s)" by (simp add: destroy_eq state_inv_def)
  have f: "state_inv ?f" by (simp add: new_InstancedBuffer_def state_inv_def)
  have r: "concat (map release_calls gs) =
      concat (map (\<lambda>g. [Buffer (buf_id (vb g)), InputAssembler (ia_id (ia g))]) gs)" for gs
    by (simp add: release_calls_def [abs_def])
  have m: "buffer attrs \<noteq> [] \<Longrightarrow>
      instances (merged e subModel attrs passIdx (destroy s)) =
        [new_group e subModel attrs passIdx (created (device s))]
      \<and> hasPendingModels (merged e subModel attrs passIdx (destroy s))
      \<and> merged e subModel attrs passIdx (destroy s) =
          (merged e subModel attrs passIdx ?f)\<lparr>dynamicOffsets := dynamicOffsets s\<rparr>"
    by (simp add: merged_def landing_def destroy_eq new_InstancedBuffer_def)
  have c: "count (new_group e subModel attrs passIdx n) = 1
      \<and> capacity (new_group e subModel attrs passIdx n) = 32" for n
    by (simp add: new_group_def)
  have e1: "merge e subModel attrs passIdx h (destroy s) =
      Inr (merged e subModel attrs passIdx (destroy s))"
    by (rule merge_eq [OF d])
  have e2: "merge e subModel attrs passIdx h ?f = Inr (merged e subModel attrs passIdx ?f)"
    by (rule merge_eq [OF f])
  have i: "instances (destroy s) = []" by (simp add: destroy_eq)
  have rl: "released (device (destroy s)) =
       released (device s) @
         concat (map (\<lambda>g. [Buffer (buf_id (vb g)), InputAssembler (ia_id (ia g))]) (instances s))"
    by (simp add: destroy_eq r)
  have "\<exists>g s1 s2. merge e subModel attrs passIdx h (destroy s) = Inr s1
           \<and> merge e subModel attrs passIdx h ?f = Inr s2
           \<and> instances s1 = [g] \<and> count g = 1 \<and> capacity g = 32
           \<and> hasPendingModels s1
           \<and> s1 = s2\<lparr>dynamicOffsets := dynamicOffsets s\<rparr>"
    if ne: "buffer attrs \<noteq> []"
    unfolding e1 e2 using m [OF ne] c [of "created (device s)"] by blast
  then show ?thesis using i rl by blast
qed

theorem destroy_then_merge_starts_afresh_witness:
  "buffer (ex_attrs [1, 2]) \<noteq> []
   \<and> (\<exists>g s1 s2. merge ex_env (ex_subModel (Some 5) None 3) (ex_attrs [1, 2]) 0 None
                   (destroy (ex_state 3)) = Inr s1
           \<and> merge ex_env (ex_subModel (Some 5) None 3) (ex_attrs [1, 2]) 0 None
                (new_InstancedBuffer \<lparr>pass_device = device (destroy (ex_state 3)),
                                       pass_handle = hPass (ex_state 3)\<rparr>)
               = Inr s2
           \<and> instances s1 = [g] \<and> count g = 1 \<and> capacity g = 32
           \<and> hasPendingModels s1
           \<and> s1 = s2\<lparr>dynamicOffsets := dynamicOffsets (ex_state 3)\<rparr>)
   \<and> released (device (destroy (ex_state 3))) = [Buffer 0, InputAssembler 1]"
proof -
  have a: "buffer (ex_attrs [1, 2]) \<noteq> []" by (simp add: ex_attrs_def)
  have b: "released (device (ex_state 3)) @
         concat (map (\<lambda>g. [Buffer (buf_id (vb g)), InputAssembler (ia_id (ia g))])
           (instances (ex_state 3))) = [Buffer 0, InputAssembler 1]"
    by (simp add: ex_state_def ex_group_def)
  show ?thesis
    using a destroy_then_merge_starts_afresh [of "ex_state 3" "ex_attrs [1, 2]" ex_env
        "ex_subModel (Some 5) None 3" 0 None]
    unfolding b by blast
qed

subsection \<open>C9\<close>

text \<open>
  C9. The optional shader override of \<open>merge\<close> is never read: two calls that differ only in
  it have the same outcome, state or exception.
\<close>

theorem merge_ignores_hShaderImplant:
  "merge e subModel attrs passIdx h1 s = merge e subModel attrs passIdx h2 s"
  by (simp add: merge_def)

subsection \<open>C10\<close>

text \<open>
  C10. \<open>destroy\<close> leaves \<open>hasPendingModels\<close> and \<open>dynamicOffsets\<close> as they are. After a merge
  that reached a group, \<open>destroy\<close> leaves the flag set although no group is left. Neither
  \<open>uploadBuffers\<close> nor \<open>destroy\<close> nor \<open>merge\<close> resets a flag that is set; \<open>clear\<close> does.
\<close>

theorem destroy_keeps_dirty_flag:
  "hasPendingModels (destroy s) = hasPendingModels s
   \<and> dynamicOffsets (destroy s) = dynamicOffsets s
   \<and> (state_inv s \<and> landing e subModel attrs s \<noteq> None \<longrightarrow>
        (\<exists>s'. merge e subModel attrs passIdx h s = Inr s'
            \<and> hasPendingModels (destroy s') \<and> instances (destroy s') = []))
   \<and> hasPendingModels (fst (uploadBuffers cmdBuff s)) = hasPendingModels s
   \<and> (state_inv s \<and> hasPendingModels s \<longrightarrow>
        (\<exists>s'. merge e subModel attrs passIdx h s = Inr s' \<and> hasPendingModels s'))
   \<and> \<not> hasPendingModels (clear s)"
  by (simp add: destroy_eq uploadBuffers_eq clear_eq merge_eq merged_pending)

theorem destroy_keeps_dirty_flag_witness:
  "state_inv (ex_state 1)
   \<and> landing ex_env (ex_subModel (Some 5) None 3) (ex_attrs [1, 2]) (ex_state 1) \<noteq> None
   \<and> hasPendingModels (ex_state 1)
   \<and> (\<exists>s'. merge ex_env (ex_subModel (Some 5) None 3) (ex_attrs [1, 2]) 0 None (ex_state 1) = Inr s'
          \<and> hasPendingModels (destroy s') \<and> instances (destroy s') = [])
   \<and> (\<exists>s'. merge ex_env (ex_subModel (Some 5) None 3) (ex_attrs [1, 2]) 0 None (ex_state 1) = Inr s'
          \<and> hasPendingModels s')"
proof -
  have a: "state_inv (ex_state 1)" by (simp add: ex_state_inv)
  have b: "landing ex_env (ex_subModel (Some 5) None 3) (ex_attrs [1, 2]) (ex_state 1) \<noteq> None"
    by (simp add: ex_landing)
  have c: "hasPendingModels (ex_state 1)" by (simp add: ex_state_def)
  show ?thesis
    using a b c
      destroy_keeps_dirty_flag [of "ex_state 1" ex_env "ex_subModel (Some 5) None 3"
        "ex_attrs [1, 2]" 0 None "[]"]
    by blast
qed

end
